theory Spec2Isabelle
  imports Main
begin

section \<open>Text, bytes and the protocol vocabulary\<close>

text \<open>
  A Python \<^verbatim>\<open>str\<close> is the list of its Unicode code points and a \<^verbatim>\<open>bytes\<close> value the
  list of its byte values. The protocol words are Cyrillic, so they are written here by
  their code points; the ASCII parts are written as character literals.
\<close>

type_synonym ustring = "nat list"
type_synonym bytes = "nat list"

definition ascii :: "string \<Rightarrow> ustring" where
  "ascii s = map of_char s"

definition CRLF :: ustring where
  "CRLF = [13, 10]"

definition TERMINATOR :: ustring where
  "TERMINATOR = [13, 10, 13, 10]"

text \<open>\<^verbatim>\<open>PROTOCOL\<close> (line 22) and \<^verbatim>\<open>ALLOWED_NAME_LENGTH\<close> (line 24).\<close>

definition PROTOCOL :: ustring where
  "PROTOCOL = [0x420, 0x41A, 0x421, 0x41E, 0x41A, 0x2F, 0x31, 0x2E, 0x30]"

definition ALLOWED_NAME_LENGTH :: nat where
  "ALLOWED_NAME_LENGTH = 30"

text \<open>The three enumerations of \<^verbatim>\<open>custom_enums.py\<close>, each with its members in declaration
  order (the order in which a \<^verbatim>\<open>for\<close> loop visits them) and its \<^verbatim>\<open>value\<close>.\<close>

datatype ValidationWords = IS_ALLOWED | ALLOWED | FORBIDDEN

datatype RequestVerbs = GET | DELETE | WRITE

datatype ResponseWords = INCORRECT | OK | NOT_FOUND

definition ValidationWords_members :: "ValidationWords list" where
  "ValidationWords_members = [IS_ALLOWED, ALLOWED, FORBIDDEN]"

definition RequestVerbs_members :: "RequestVerbs list" where
  "RequestVerbs_members = [GET, DELETE, WRITE]"

fun validation_value :: "ValidationWords \<Rightarrow> ustring" where
  "validation_value IS_ALLOWED = [0x410, 0x41C, 0x41E, 0x416, 0x41D, 0x410, 0x3F]"
| "validation_value ALLOWED = [0x41C, 0x41E, 0x416, 0x41D, 0x410]"
| "validation_value FORBIDDEN = [0x41D, 0x418, 0x41B, 0x42C, 0x417, 0x42F]"

fun verb_value :: "RequestVerbs \<Rightarrow> ustring" where
  "verb_value GET = [0x41E, 0x422, 0x414, 0x41E, 0x412, 0x410, 0x419]"
| "verb_value DELETE = [0x423, 0x414, 0x41E, 0x41B, 0x418]"
| "verb_value WRITE = [0x417, 0x41E, 0x41F, 0x418, 0x428, 0x418]"

fun response_value :: "ResponseWords \<Rightarrow> ustring" where
  "response_value INCORRECT = [0x41D, 0x418, 0x41F, 0x41E, 0x41D, 0x42F, 0x41B]"
| "response_value OK = [0x41D, 0x41E, 0x420, 0x41C, 0x410, 0x41B, 0x414, 0x42B, 0x41A, 0x421]"
| "response_value NOT_FOUND = [0x41D, 0x418, 0x41D, 0x410, 0x428, 0x41E, 0x41B]"

text \<open>The exceptions the program raises or lets through, as values.\<close>

datatype exn =
    TimeoutError
  | CanNotParseRequestError
  | CanNotParseResponseError
  | CannotFetchDataFromValidationServer
  | AssertionError
  | IndexError
  | UnicodeDecodeError
  | UnicodeEncodeError
  | ValueError
  | OSError

datatype 'a result = Return 'a | Raise exn

subsection \<open>The string methods the server calls\<close>

definition startswith :: "'a list \<Rightarrow> 'a list \<Rightarrow> bool" where
  "startswith s p = (take (length p) s = p)"

definition endswith :: "'a list \<Rightarrow> 'a list \<Rightarrow> bool" where
  "endswith s p = (length p \<le> length s \<and> drop (length s - length p) s = p)"

text \<open>\<^verbatim>\<open>str.split('\r\n')\<close>: the pieces between the occurrences of CR LF, found from the
  left; the first argument is the piece read so far.\<close>

fun split_crlf :: "ustring \<Rightarrow> ustring \<Rightarrow> ustring list" where
  "split_crlf piece [] = [piece]"
| "split_crlf piece [c] = [piece @ [c]]"
| "split_crlf piece (c # d # cs) =
     (if c = 13 \<and> d = 10 then piece # split_crlf [] cs
      else split_crlf (piece @ [c]) (d # cs))"

text \<open>\<^verbatim>\<open>str.count(sub)\<close> for a non-empty \<^verbatim>\<open>sub\<close>: the occurrences found from the left
  that do not overlap.\<close>

function py_count :: "'a list \<Rightarrow> 'a list \<Rightarrow> nat" where
  "py_count s sub =
     (if sub = [] \<or> length s < length sub then 0
      else if startswith s sub then Suc (py_count (drop (length sub) s) sub)
      else py_count (tl s) sub)"
  by pat_completeness auto
termination
proof (relation "measure (\<lambda>(s, sub). length s)")
  show "wf (measure (\<lambda>(s, sub). length s))"
    by simp
next
  fix s sub :: "'a list"
  assume "\<not> (sub = [] \<or> length s < length sub)"
  then have "0 < length sub" and "0 < length s"
    by auto
  then show "((drop (length sub) s, sub), (s, sub)) \<in> measure (\<lambda>(s, sub). length s)"
    by simp
next
  fix s sub :: "'a list"
  assume "\<not> (sub = [] \<or> length s < length sub)"
  then have "0 < length s"
    by auto
  then show "((tl s, sub), (s, sub)) \<in> measure (\<lambda>(s, sub). length s)"
    by simp
qed

declare py_count.simps [simp del]

text \<open>Python's whitespace (\<^verbatim>\<open>str.isspace\<close>, \<^verbatim>\<open>str.strip()\<close> and the class \<^verbatim>\<open>\s\<close> of
  \<^verbatim>\<open>re\<close> on \<^verbatim>\<open>str\<close> patterns all use it).\<close>

definition is_space :: "nat \<Rightarrow> bool" where
  "is_space c =
     ((9 \<le> c \<and> c \<le> 13) \<or> (28 \<le> c \<and> c \<le> 32) \<or> c = 0x85 \<or> c = 0xA0 \<or> c = 0x1680
      \<or> (0x2000 \<le> c \<and> c \<le> 0x200A) \<or> c = 0x2028 \<or> c = 0x2029 \<or> c = 0x202F
      \<or> c = 0x205F \<or> c = 0x3000)"

definition not_space :: "nat \<Rightarrow> bool" where
  "not_space c = (\<not> is_space c)"

definition py_strip :: "ustring \<Rightarrow> ustring" where
  "py_strip s = rev (dropWhile is_space (rev (dropWhile is_space s)))"

fun py_join :: "'a list \<Rightarrow> 'a list list \<Rightarrow> 'a list" where
  "py_join sep [] = []"
| "py_join sep [x] = x"
| "py_join sep (x # y # ys) = x @ sep @ py_join sep (y # ys)"

subsection \<open>UTF-8\<close>

text \<open>\<^verbatim>\<open>bytes.decode('UTF-8')\<close> in its default strict mode: shortest forms only, no
  surrogates, nothing above U+10FFFF; \<open>None\<close> is \<^verbatim>\<open>UnicodeDecodeError\<close>.\<close>

definition cont :: "nat \<Rightarrow> bool" where
  "cont b = (0x80 \<le> b \<and> b \<le> 0xBF)"

fun utf8_decode :: "bytes \<Rightarrow> ustring option" where
  "utf8_decode [] = Some []"
| "utf8_decode (b0 # bs) =
     (if b0 < 0x80 then map_option (Cons b0) (utf8_decode bs)
      else if b0 < 0xC2 then None
      else if b0 < 0xE0 then
        (case bs of
           b1 # r \<Rightarrow>
             if cont b1
             then map_option (Cons ((b0 - 0xC0) * 0x40 + (b1 - 0x80))) (utf8_decode r)
             else None
         | _ \<Rightarrow> None)
      else if b0 < 0xF0 then
        (case bs of
           b1 # b2 # r \<Rightarrow>
             if cont b1 \<and> cont b2 \<and> (if b0 = 0xE0 then 0xA0 \<le> b1 else True)
                \<and> (if b0 = 0xED then b1 \<le> 0x9F else True)
             then map_option
                    (Cons ((b0 - 0xE0) * 0x1000 + (b1 - 0x80) * 0x40 + (b2 - 0x80)))
                    (utf8_decode r)
             else None
         | _ \<Rightarrow> None)
      else if b0 < 0xF5 then
        (case bs of
           b1 # b2 # b3 # r \<Rightarrow>
             if cont b1 \<and> cont b2 \<and> cont b3 \<and> (if b0 = 0xF0 then 0x90 \<le> b1 else True)
                \<and> (if b0 = 0xF4 then b1 \<le> 0x8F else True)
             then map_option
                    (Cons ((b0 - 0xF0) * 0x40000 + (b1 - 0x80) * 0x1000 + (b2 - 0x80) * 0x40
                           + (b3 - 0x80)))
                    (utf8_decode r)
             else None
         | _ \<Rightarrow> None)
      else None)"

text \<open>\<^verbatim>\<open>str.encode('UTF-8')\<close>; \<open>None\<close> is \<^verbatim>\<open>UnicodeEncodeError\<close> (a surrogate, or a number
  that is no code point).\<close>

definition encode_cp :: "nat \<Rightarrow> bytes option" where
  "encode_cp c =
     (if c < 0x80 then Some [c]
      else if c < 0x800 then Some [0xC0 + c div 0x40, 0x80 + c mod 0x40]
      else if 0xD800 \<le> c \<and> c \<le> 0xDFFF then None
      else if c < 0x10000 then
        Some [0xE0 + c div 0x1000, 0x80 + (c div 0x40) mod 0x40, 0x80 + c mod 0x40]
      else if c < 0x110000 then
        Some [0xF0 + c div 0x40000, 0x80 + (c div 0x1000) mod 0x40,
              0x80 + (c div 0x40) mod 0x40, 0x80 + c mod 0x40]
      else None)"

fun utf8_encode :: "ustring \<Rightarrow> bytes option" where
  "utf8_encode [] = Some []"
| "utf8_encode (c # cs) =
     (case encode_cp c of
        None \<Rightarrow> None
      | Some b \<Rightarrow> map_option (append b) (utf8_encode cs))"

subsection \<open>The name pattern\<close>

text \<open>
  The server finds the name with \<^verbatim>\<open>re.search\<close> and the pattern
  \<^verbatim>\<open>\s+(([^\s]+\s+)+)(?=PROTOCOL)\<close> (line 129, \<^verbatim>\<open>PROTOCOL\<close> standing for the nine
  characters of the version token). A backtracking matcher is modelled by what it
  does: from the text at the current position it gives the texts that can remain
  after a match, in the order in which the engine tries them, so that the head of the
  list is the match the engine takes.
\<close>

type_synonym matcher = "ustring \<Rightarrow> ustring list"

text \<open>A greedy \<^verbatim>\<open>C+\<close> over a character class: the longest run first.\<close>

fun re_class_plus :: "(nat \<Rightarrow> bool) \<Rightarrow> matcher" where
  "re_class_plus P [] = []"
| "re_class_plus P (c # cs) = (if P c then re_class_plus P cs @ [cs] else [])"

definition re_seq :: "matcher \<Rightarrow> matcher \<Rightarrow> matcher" where
  "re_seq m1 m2 s = concat (map m2 (m1 s))"

text \<open>A greedy \<^verbatim>\<open>(X)+\<close>: after one match of \<^verbatim>\<open>X\<close> the engine first tries further
  rounds and then stops; a round that consumed nothing is not repeated.\<close>

function re_group_plus :: "matcher \<Rightarrow> matcher" where
  "re_group_plus m s =
     concat (map (\<lambda>r. if length r < length s then re_group_plus m r @ [r] else [r]) (m s))"
  by pat_completeness auto
termination
  by (relation "measure (\<lambda>(m, s). length s)") auto

declare re_group_plus.simps [simp del]

text \<open>A lookahead \<^verbatim>\<open>(?=literal)\<close> consumes nothing.\<close>

definition re_lookahead :: "ustring \<Rightarrow> matcher" where
  "re_lookahead lit s = (if startswith s lit then [s] else [])"

definition name_pattern :: matcher where
  "name_pattern =
     re_seq (re_class_plus is_space)
       (re_seq (re_group_plus (re_seq (re_class_plus not_space) (re_class_plus is_space)))
          (re_lookahead PROTOCOL))"

text \<open>\<^verbatim>\<open>re.search(pattern, s)\<close>: the first position, from the left, at which the pattern
  matches; the result is the matched text (\<^verbatim>\<open>group()\<close>), \<open>None\<close> when there is no match.\<close>

fun re_search :: "matcher \<Rightarrow> ustring \<Rightarrow> ustring option" where
  "re_search m [] = (case m [] of [] \<Rightarrow> None | r # _ \<Rightarrow> Some [])"
| "re_search m (c # cs) =
     (case m (c # cs) of
        [] \<Rightarrow> re_search m cs
      | r # _ \<Rightarrow> Some (take (length (c # cs) - length r) (c # cs)))"

section \<open>The file system under the record store\<close>

text \<open>
  The record store reaches the disk through \<^verbatim>\<open>os.stat\<close>, \<^verbatim>\<open>os.mkdir\<close>, \<^verbatim>\<open>open\<close> and
  \<^verbatim>\<open>os.remove\<close>. The disk is a tree of directories and regular files, given as a map
  from absolute paths (lists of names, \<open>[]\<close> the root directory) to nodes; a name is
  the byte string the system call gets, and a file holds bytes. A path string is resolved
  as Linux does it for a tree without symbolic links: it is encoded, refused when it is
  too long, and then followed component by component, every component but the last
  through a directory. Each call is also written to a trace, so that a theorem can say
  that the disk was not touched at all.

  What the model leaves out: access rights, quotas and full disks, device errors, and
  nodes other than directories and regular files. Every statement below about a file
  operation is a statement about a disk on which the server may search every directory
  and read and write every file and directory it meets, with room for what it writes.
\<close>

text \<open>\<^verbatim>\<open>os.fsencode\<close>, which Python applies to every path string: UTF-8 with the
  \<^verbatim>\<open>surrogateescape\<close> handler, under which the code points U+DC80 to U+DCFF stand for the
  bytes 0x80 to 0xFF; \<open>None\<close> is \<^verbatim>\<open>UnicodeEncodeError\<close>.\<close>

definition fsencode_cp :: "nat \<Rightarrow> bytes option" where
  "fsencode_cp c = (if 0xDC80 \<le> c \<and> c \<le> 0xDCFF then Some [c - 0xDC00] else encode_cp c)"

fun fsencode :: "ustring \<Rightarrow> bytes option" where
  "fsencode [] = Some []"
| "fsencode (c # cs) =
     (case fsencode_cp c of
        None \<Rightarrow> None
      | Some b \<Rightarrow> map_option (append b) (fsencode cs))"

text \<open>The limits of Linux: a path of 4096 bytes or more (\<^verbatim>\<open>PATH_MAX\<close> counts the final
  NUL) and a component of more than 255 bytes (\<^verbatim>\<open>NAME_MAX\<close>) are refused with
  \<^verbatim>\<open>ENAMETOOLONG\<close>.\<close>

definition PATH_MAX :: nat where
  "PATH_MAX = 4096"

definition NAME_MAX :: nat where
  "NAME_MAX = 255"

datatype node = Dir | File bytes

datatype fs_op = Stat ustring | Mkdir ustring | OpenWrite ustring | OpenRead ustring | Remove ustring

record filesystem =
  nodes :: "bytes list \<Rightarrow> node option"
  cwd :: "bytes list"
  trace :: "fs_op list"

fun split_slash :: "bytes \<Rightarrow> bytes \<Rightarrow> bytes list" where
  "split_slash piece [] = [piece]"
| "split_slash piece (c # cs) =
     (if c = 0x2F then piece # split_slash [] cs else split_slash (piece @ [c]) cs)"

fun walk :: "(bytes list \<Rightarrow> node option) \<Rightarrow> bytes list \<Rightarrow> bytes list \<Rightarrow> bytes list option" where
  "walk nd cur [] = Some cur"
| "walk nd cur (c # cs) =
     (if nd cur \<noteq> Some Dir then None
      else if c = [] \<or> c = [0x2E] then walk nd cur cs
      else if c = [0x2E, 0x2E] then walk nd (butlast cur) cs
      else if NAME_MAX < length c then None
      else walk nd (cur @ [c]) cs)"

text \<open>A path that cannot be encoded is refused by Python itself (\<^verbatim>\<open>UnicodeEncodeError\<close>),
  and so is, after that, a path with a NUL character (\<^verbatim>\<open>ValueError\<close>: embedded null
  byte); every other failure is an \<^verbatim>\<open>OSError\<close> of the system call.\<close>

definition resolve :: "filesystem \<Rightarrow> ustring \<Rightarrow> bytes list result" where
  "resolve fs p =
     (case fsencode p of
        None \<Rightarrow> Raise UnicodeEncodeError
      | Some b \<Rightarrow>
          if 0 \<in> set b then Raise ValueError
          else if b = [] \<or> PATH_MAX \<le> length b then Raise OSError
          else case walk (nodes fs) (if hd b = 0x2F then [] else cwd fs) (split_slash [] b) of
                 None \<Rightarrow> Raise OSError
               | Some k \<Rightarrow> Return k)"

definition os_stat :: "filesystem \<Rightarrow> ustring \<Rightarrow> unit result \<times> filesystem" where
  "os_stat fs p =
     (let fs1 = fs\<lparr>trace := trace fs @ [Stat p]\<rparr> in
      case resolve fs p of
        Raise e \<Rightarrow> (Raise e, fs1)
      | Return k \<Rightarrow>
          (case nodes fs k of
             None \<Rightarrow> (Raise OSError, fs1)
           | Some n \<Rightarrow> (Return (), fs1)))"

definition os_mkdir :: "filesystem \<Rightarrow> ustring \<Rightarrow> unit result \<times> filesystem" where
  "os_mkdir fs p =
     (let fs1 = fs\<lparr>trace := trace fs @ [Mkdir p]\<rparr> in
      case resolve fs p of
        Raise e \<Rightarrow> (Raise e, fs1)
      | Return k \<Rightarrow>
          if nodes fs k \<noteq> None \<or> k = [] \<or> nodes fs (butlast k) \<noteq> Some Dir
          then (Raise OSError, fs1)
          else (Return (), fs1\<lparr>nodes := (nodes fs)(k \<mapsto> Dir)\<rparr>))"

text \<open>\<^verbatim>\<open>open(p, mode='w', encoding='UTF-8')\<close> followed by one \<^verbatim>\<open>write(text)\<close> and the close
  of the \<^verbatim>\<open>with\<close> block: the file is created or truncated when it is opened, and holds
  the encoded text afterwards (on POSIX a written \<^verbatim>\<open>'\n'\<close> stays as it is).\<close>

definition open_write :: "filesystem \<Rightarrow> ustring \<Rightarrow> ustring \<Rightarrow> unit result \<times> filesystem" where
  "open_write fs p text =
     (let fs1 = fs\<lparr>trace := trace fs @ [OpenWrite p]\<rparr> in
      case resolve fs p of
        Raise e \<Rightarrow> (Raise e, fs1)
      | Return k \<Rightarrow>
          if nodes fs k = Some Dir \<or> k = [] \<or> nodes fs (butlast k) \<noteq> Some Dir
          then (Raise OSError, fs1)
          else (case utf8_encode text of
                  None \<Rightarrow> (Raise UnicodeEncodeError, fs1\<lparr>nodes := (nodes fs)(k \<mapsto> File [])\<rparr>)
                | Some b \<Rightarrow> (Return (), fs1\<lparr>nodes := (nodes fs)(k \<mapsto> File b)\<rparr>)))"

text \<open>Reading in text mode translates \<^verbatim>\<open>'\r\n'\<close> and a lone \<^verbatim>\<open>'\r'\<close> to \<^verbatim>\<open>'\n'\<close>
  (universal newlines), and \<^verbatim>\<open>readlines()\<close> cuts after every \<^verbatim>\<open>'\n'\<close>, keeping it.\<close>

fun universal_newlines :: "ustring \<Rightarrow> ustring" where
  "universal_newlines [] = []"
| "universal_newlines [c] = (if c = 13 then [10] else [c])"
| "universal_newlines (c # d # cs) =
     (if c = 13 \<and> d = 10 then 10 # universal_newlines cs
      else if c = 13 then 10 # universal_newlines (d # cs)
      else c # universal_newlines (d # cs))"

fun readlines :: "ustring \<Rightarrow> ustring \<Rightarrow> ustring list" where
  "readlines line [] = (if line = [] then [] else [line])"
| "readlines line (c # cs) =
     (if c = 10 then (line @ [c]) # readlines [] cs else readlines (line @ [c]) cs)"

definition open_read :: "filesystem \<Rightarrow> ustring \<Rightarrow> ustring list result \<times> filesystem" where
  "open_read fs p =
     (let fs1 = fs\<lparr>trace := trace fs @ [OpenRead p]\<rparr> in
      case resolve fs p of
        Raise e \<Rightarrow> (Raise e, fs1)
      | Return k \<Rightarrow>
          (case nodes fs k of
             Some (File b) \<Rightarrow>
               (case utf8_decode b of
                  None \<Rightarrow> (Raise UnicodeDecodeError, fs1)
                | Some t \<Rightarrow> (Return (readlines [] (universal_newlines t)), fs1))
           | _ \<Rightarrow> (Raise OSError, fs1)))"

definition os_remove :: "filesystem \<Rightarrow> ustring \<Rightarrow> unit result \<times> filesystem" where
  "os_remove fs p =
     (let fs1 = fs\<lparr>trace := trace fs @ [Remove p]\<rparr> in
      case resolve fs p of
        Raise e \<Rightarrow> (Raise e, fs1)
      | Return k \<Rightarrow>
          (case nodes fs k of
             Some (File b) \<Rightarrow> (Return (), fs1\<lparr>nodes := (nodes fs)(k := None)\<rparr>)
           | _ \<Rightarrow> (Raise OSError, fs1)))"

section \<open>The server\<close>

text \<open>
  The attributes of \<^verbatim>\<open>RKSOKServer\<close> that the request handling reads and writes. The
  validation server's address is the \<open>authority\<close> argument of \<open>tcp_echo_client\<close> below.
  \<open>name\<close>, \<open>request_type\<close> and \<open>phones\<close> are assigned by the validation of a request before
  the record store reads them. One connection is handled from its first read to its
  response; other connections running between its steps are not modelled.
\<close>

record RKSOKServer =
  path_to_phonebook :: ustring
  name :: ustring
  request_type :: RequestVerbs
  phones :: "ustring list"

subsection \<open>Frame reader\<close>

text \<open>
  \<^verbatim>\<open>_receiving_data\<close> (lines 52-61) under \<^verbatim>\<open>asyncio.wait_for(..., timeout=5)\<close>. The reader
  is the list of the chunks that \<^verbatim>\<open>reader.read(4096)\<close> delivers before the five seconds
  are over, an empty chunk being the end of the stream; when the loop asks for a chunk
  beyond the list, it waits until \<^verbatim>\<open>wait_for\<close> cancels it: \<^verbatim>\<open>TimeoutError\<close>.
\<close>

fun receiving_data :: "bytes \<Rightarrow> bytes list \<Rightarrow> bytes result" where
  "receiving_data data [] = Raise TimeoutError"
| "receiving_data data (chunk # reader) =
     (if chunk = [] then Return (data @ chunk)
      else case utf8_decode chunk of
             None \<Rightarrow> Raise UnicodeDecodeError
           | Some text \<Rightarrow>
               if endswith text TERMINATOR then Return (data @ chunk)
               else receiving_data (data @ chunk) reader)"

subsection \<open>Record store\<close>

definition is_path_exists :: "filesystem \<Rightarrow> ustring \<Rightarrow> bool \<times> filesystem" where
  "is_path_exists fs p =
     (case os_stat fs p of
        (Return u, fs1) \<Rightarrow> (True, fs1)
      | (Raise e, fs1) \<Rightarrow> (False, fs1))"

definition record_path :: "RKSOKServer \<Rightarrow> ustring" where
  "record_path srv = path_to_phonebook srv @ [0x2F] @ name srv"

definition response_line :: "ResponseWords \<Rightarrow> ustring" where
  "response_line w = response_value w @ [32] @ PROTOCOL @ CRLF"

definition write_phones :: "RKSOKServer \<Rightarrow> filesystem \<Rightarrow> ustring result \<times> filesystem" where
  "write_phones srv fs =
     (case is_path_exists fs (path_to_phonebook srv) of
        (ex, fs1) \<Rightarrow>
          (case (if \<not> ex then os_mkdir fs1 (path_to_phonebook srv) else (Return (), fs1)) of
             (Raise e, fs2) \<Rightarrow> (Raise e, fs2)
           | (Return u, fs2) \<Rightarrow>
               (case open_write fs2 (record_path srv) (py_join CRLF (phones srv)) of
                  (Raise e, fs3) \<Rightarrow> (Raise e, fs3)
                | (Return v, fs3) \<Rightarrow> (Return (response_line OK @ CRLF), fs3))))"

definition read_phones :: "RKSOKServer \<Rightarrow> filesystem \<Rightarrow> ustring result \<times> filesystem" where
  "read_phones srv fs =
     (case is_path_exists fs (record_path srv) of
        (ex, fs1) \<Rightarrow>
          if \<not> ex then (Return (response_line NOT_FOUND @ CRLF), fs1)
          else (case open_read fs1 (record_path srv) of
                  (Raise e, fs2) \<Rightarrow> (Raise e, fs2)
                | (Return lines, fs2) \<Rightarrow>
                    (Return (response_line OK @ py_join CRLF (map py_strip lines) @ TERMINATOR),
                     fs2)))"

definition delete_file :: "RKSOKServer \<Rightarrow> filesystem \<Rightarrow> ustring result \<times> filesystem" where
  "delete_file srv fs =
     (case is_path_exists fs (record_path srv) of
        (ex, fs1) \<Rightarrow>
          if \<not> ex then (Return (response_line NOT_FOUND @ CRLF), fs1)
          else (case os_remove fs1 (record_path srv) of
                  (Raise e, fs2) \<Rightarrow> (Raise e, fs2)
                | (Return u, fs2) \<Rightarrow> (Return (response_line OK @ CRLF), fs2)))"

text \<open>\<^verbatim>\<open>self.crud_dict\<close> (lines 45-49) with its \<^verbatim>\<open>get\<close>.\<close>

fun crud_dict ::
  "RequestVerbs \<Rightarrow> (RKSOKServer \<Rightarrow> filesystem \<Rightarrow> ustring result \<times> filesystem) option" where
  "crud_dict WRITE = Some write_phones"
| "crud_dict GET = Some read_phones"
| "crud_dict DELETE = Some delete_file"

subsection \<open>Request grammar\<close>

definition check_phones_in_request :: "RKSOKServer \<Rightarrow> ustring list \<Rightarrow> bool \<times> RKSOKServer" where
  "check_phones_in_request srv request_payload =
     (request_payload = map py_strip (filter (\<lambda>l. py_strip l \<noteq> []) request_payload),
      srv\<lparr>phones := request_payload\<rparr>)"

text \<open>\<^verbatim>\<open>_check_request_body\<close> (lines 119-144). \<^verbatim>\<open>name.group()[1:-1]\<close> is the match without its
  first and last character. When the pattern does not match, \<^verbatim>\<open>assert name is not None\<close>
  raises \<^verbatim>\<open>AssertionError\<close>, which the \<^verbatim>\<open>except AttributeError\<close> of line 142 does not
  catch.\<close>

definition check_request_body :: "RKSOKServer \<Rightarrow> ustring \<Rightarrow> bool result \<times> RKSOKServer" where
  "check_request_body srv raw_request =
     (let request_payload = filter (\<lambda>l. l \<noteq> []) (split_crlf [] raw_request) in
      case request_payload of
        [] \<Rightarrow> (Raise IndexError, srv)
      | first # rest \<Rightarrow>
          if \<not> endswith first ([32] @ PROTOCOL)
             \<or> list_ex (\<lambda>l. list_ex (\<lambda>el. el \<in> set l) [13, 10]) request_payload
          then (Return False, srv)
          else (case re_search name_pattern first of
                  None \<Rightarrow> (Raise AssertionError, srv)
                | Some matched \<Rightarrow>
                    (let srv1 = srv\<lparr>name := butlast (tl matched)\<rparr> in
                     if \<not> length (name srv1) \<le> ALLOWED_NAME_LENGTH then (Return False, srv1)
                     else (case check_phones_in_request srv1 rest of
                             (ok, srv2) \<Rightarrow> (Return ok, srv2)))))"

text \<open>\<^verbatim>\<open>_is_valid_request\<close> (lines 146-174): it returns \<^verbatim>\<open>True\<close> or raises.\<close>

definition is_valid_request :: "RKSOKServer \<Rightarrow> ustring \<Rightarrow> unit result \<times> RKSOKServer" where
  "is_valid_request srv raw_request =
     (case find (\<lambda>verb. startswith raw_request (verb_value verb @ [32])) RequestVerbs_members of
        None \<Rightarrow> (Raise CanNotParseRequestError, srv)
      | Some verb \<Rightarrow>
          (let srv1 = srv\<lparr>request_type := verb\<rparr> in
           if (endswith raw_request ([32] @ PROTOCOL @ TERMINATOR)
               \<or> endswith raw_request TERMINATOR)
              \<and> \<not> endswith raw_request ([32] @ TERMINATOR)
              \<and> py_count raw_request TERMINATOR = 1
           then (case check_request_body srv1 raw_request of
                   (Raise e, srv2) \<Rightarrow> (Raise e, srv2)
                 | (Return ok, srv2) \<Rightarrow>
                     if ok then (Return (), srv2\<lparr>name := py_strip (name srv2)\<rparr>)
                     else (Raise CanNotParseRequestError, srv2))
           else (Raise CanNotParseRequestError, srv1)))"

subsection \<open>Validation client\<close>

text \<open>
  The validation server as the handler meets it: \<^verbatim>\<open>asyncio.open_connection\<close> is refused,
  fails with another \<^verbatim>\<open>OSError\<close> (a name that does not resolve, an unreachable network),
  or gives a stream whose chunks may depend on the bytes sent.
\<close>

datatype authority = ConnectionRefused | ConnectionFailed | Established "bytes \<Rightarrow> bytes list"

definition tcp_echo_client :: "authority \<Rightarrow> ustring \<Rightarrow> bytes result" where
  "tcp_echo_client auth message_to_server =
     (case auth of
        ConnectionRefused \<Rightarrow> Raise CannotFetchDataFromValidationServer
      | ConnectionFailed \<Rightarrow> Raise OSError
      | Established reply \<Rightarrow>
          (case utf8_encode (validation_value IS_ALLOWED @ [32] @ PROTOCOL @ CRLF @ message_to_server) of
             None \<Rightarrow> Raise UnicodeEncodeError
           | Some message \<Rightarrow>
               (case receiving_data [] (reply message) of
                  Raise e \<Rightarrow>
                    if e = TimeoutError then Raise CannotFetchDataFromValidationServer
                    else Raise e
                | Return data \<Rightarrow>
                    (case utf8_decode data of
                       None \<Rightarrow> Raise UnicodeDecodeError
                     | Some text \<Rightarrow> Return data))))"

subsection \<open>Connection orchestrator\<close>

record writer =
  written :: "bytes list"
  closed :: bool

definition write_and_close :: "ustring \<Rightarrow> writer \<Rightarrow> unit result \<times> writer" where
  "write_and_close response w =
     (case utf8_encode response of
        None \<Rightarrow> (Raise UnicodeEncodeError, w)
      | Some b \<Rightarrow> (Return (), w\<lparr>written := written w @ [b], closed := True\<rparr>))"

definition response_if_exception :: "writer \<Rightarrow> unit result \<times> writer" where
  "response_if_exception w = write_and_close (response_line INCORRECT @ CRLF) w"

text \<open>The \<^verbatim>\<open>try\<close> block of \<^verbatim>\<open>handle_echo\<close> (lines 216-236).\<close>

definition handle_echo_try ::
  "RKSOKServer \<Rightarrow> authority \<Rightarrow> filesystem \<Rightarrow> bytes list \<Rightarrow> writer
   \<Rightarrow> unit result \<times> RKSOKServer \<times> filesystem \<times> writer" where
  "handle_echo_try srv auth fs reader w =
     (case receiving_data [] reader of
        Raise e \<Rightarrow> (Raise e, srv, fs, w)
      | Return data \<Rightarrow>
          (case utf8_decode data of
             None \<Rightarrow> (Raise UnicodeDecodeError, srv, fs, w)
           | Some message \<Rightarrow>
               (case is_valid_request srv message of
                  (Raise e, srv1) \<Rightarrow> (Raise e, srv1, fs, w)
                | (Return u, srv1) \<Rightarrow>
                    (case tcp_echo_client auth message of
                       Raise e \<Rightarrow> (Raise e, srv1, fs, w)
                     | Return reply \<Rightarrow>
                         (case utf8_decode reply of
                            None \<Rightarrow> (Raise UnicodeDecodeError, srv1, fs, w)
                          | Some server_response \<Rightarrow>
                              if \<not> list_ex
                                     (\<lambda>verb. startswith server_response (validation_value verb @ [32]))
                                     ValidationWords_members
                              then (Raise CanNotParseResponseError, srv1, fs, w)
                              else if \<not> startswith server_response (validation_value ALLOWED @ [32])
                              then (case write_and_close server_response w of
                                      (r, w1) \<Rightarrow> (r, srv1, fs, w1))
                              else (case crud_dict (request_type srv1) of
                                      None \<Rightarrow> (Raise AssertionError, srv1, fs, w)
                                    | Some response \<Rightarrow>
                                        (case response srv1 fs of
                                           (Raise e, fs1) \<Rightarrow> (Raise e, srv1, fs1, w)
                                         | (Return response', fs1) \<Rightarrow>
                                             (case write_and_close response' w of
                                                (r, w1) \<Rightarrow> (r, srv1, fs1, w1)))))))))"

text \<open>The \<^verbatim>\<open>except\<close> clause (lines 237-243) names four exceptions; any other leaves
  \<^verbatim>\<open>handle_echo\<close> as it was raised, with nothing written and the transport not closed.\<close>

definition caught :: "exn \<Rightarrow> bool" where
  "caught e =
     (e = TimeoutError \<or> e = CanNotParseRequestError \<or> e = CanNotParseResponseError
      \<or> e = CannotFetchDataFromValidationServer)"

definition handle_echo ::
  "RKSOKServer \<Rightarrow> authority \<Rightarrow> filesystem \<Rightarrow> bytes list \<Rightarrow> writer
   \<Rightarrow> unit result \<times> RKSOKServer \<times> filesystem \<times> writer" where
  "handle_echo srv auth fs reader w =
     (case handle_echo_try srv auth fs reader w of
        (Raise e, srv1, fs1, w1) \<Rightarrow>
          if caught e
          then (case response_if_exception w1 of (r, w2) \<Rightarrow> (r, srv1, fs1, w2))
          else (Raise e, srv1, fs1, w1)
      | (Return u, srv1, fs1, w1) \<Rightarrow> (Return u, srv1, fs1, w1))"

section \<open>Notions used in the statements and proofs\<close>

text \<open>One round of the group of the name pattern, a non-blank run and the whitespace
  after it; the rounds the greedy group can make; and the lookahead applied to a list of
  remainders.\<close>

definition token_once :: matcher where
  "token_once = re_seq (re_class_plus not_space) (re_class_plus is_space)"

abbreviation tokens :: matcher where
  "tokens \<equiv> re_group_plus token_once"

definition LA :: "ustring list \<Rightarrow> ustring list" where
  "LA xs = concat (map (re_lookahead PROTOCOL) xs)"

text \<open>What a path string names on the disk, if anything; and whether a path lies in the
  subtree of a directory.\<close>

definition lookup :: "filesystem \<Rightarrow> ustring \<Rightarrow> node option" where
  "lookup fs p = (case resolve fs p of Return k \<Rightarrow> nodes fs k | Raise e \<Rightarrow> None)"

definition inside_directory :: "filesystem \<Rightarrow> ustring \<Rightarrow> ustring \<Rightarrow> bool" where
  "inside_directory fs d p =
     (case resolve fs d of
        Raise e \<Rightarrow> False
      | Return kd \<Rightarrow> (case resolve fs p of Raise e \<Rightarrow> False | Return k \<Rightarrow> startswith k kd))"

text \<open>A payload line as the request grammar admits it: not empty, without CR and LF, and
  equal to its trimmed form. And a line that is only without CR and LF and equal to its
  trimmed form; it may be empty.\<close>

definition good_line :: "ustring \<Rightarrow> bool" where
  "good_line l = (l \<noteq> [] \<and> 13 \<notin> set l \<and> 10 \<notin> set l \<and> py_strip l = l)"

definition trimmed_line :: "ustring \<Rightarrow> bool" where
  "trimmed_line l = (13 \<notin> set l \<and> 10 \<notin> set l \<and> py_strip l = l)"

text \<open>A file name proper, as the system call gets it: not empty, neither \<^verbatim>\<open>.\<close> nor \<^verbatim>\<open>..\<close>,
  no slash, no NUL, at most \<open>NAME_MAX\<close> bytes. And the absolute path made of such
  names.\<close>

definition plain_name :: "bytes \<Rightarrow> bool" where
  "plain_name c = (c \<noteq> [] \<and> 0x2F \<notin> set c \<and> 0 \<notin> set c \<and> c \<noteq> [0x2E] \<and> c \<noteq> [0x2E, 0x2E]
     \<and> length c \<le> NAME_MAX)"

definition abs_path :: "bytes list \<Rightarrow> bytes" where
  "abs_path comps = concat (map (\<lambda>c. 0x2F # c) comps)"

text \<open>The UTF-8 encoding of a text that has one.\<close>

definition utf8 :: "ustring \<Rightarrow> bytes" where
  "utf8 s = (case utf8_encode s of Some b \<Rightarrow> b | None \<Rightarrow> [])"

text \<open>A record name that is a file name proper: 1 to 30 characters that UTF-8 can encode
  (no lone surrogate), none of them a slash or NUL, and not \<^verbatim>\<open>.\<close> or \<^verbatim>\<open>..\<close>.\<close>

definition proper_name :: "ustring \<Rightarrow> bool" where
  "proper_name N = (N \<noteq> [] \<and> length N \<le> ALLOWED_NAME_LENGTH \<and> utf8_encode N \<noteq> None
     \<and> 0x2F \<notin> set N \<and> 0 \<notin> set N \<and> N \<noteq> [0x2E] \<and> N \<noteq> [0x2E, 0x2E])"

text \<open>A disk on which the phonebook directory can be used or made: the phonebook's path is
  absolute and normalised, as \<^verbatim>\<open>Path.resolve()\<close> (line 41) gives it, its components are
  \<open>rc\<close>, and it leaves room below \<open>PATH_MAX\<close> for a slash and a name of 30 characters
  (120 bytes at most); the directories above the phonebook exist; the phonebook itself
  is a directory or does not exist.\<close>

definition phonebook_ready :: "bytes list \<Rightarrow> RKSOKServer \<Rightarrow> filesystem \<Rightarrow> bool" where
  "phonebook_ready rc srv fs =
     (rc \<noteq> [] \<and> list_all plain_name rc \<and> fsencode (path_to_phonebook srv) = Some (abs_path rc)
      \<and> length (abs_path rc) + 1 + 4 * ALLOWED_NAME_LENGTH < PATH_MAX
      \<and> list_all (\<lambda>i. nodes fs (take i rc) = Some Dir) [0..<length rc]
      \<and> (nodes fs rc = None \<or> nodes fs rc = Some Dir))"

text \<open>A disk on which the record of the server's current name can be written: the
  phonebook is ready, the name is a file name proper, nothing or a regular file is at
  the record's own path, and the lines can be encoded.\<close>

definition store_ready :: "bytes list \<Rightarrow> RKSOKServer \<Rightarrow> filesystem \<Rightarrow> bool" where
  "store_ready rc srv fs =
     (phonebook_ready rc srv fs
      \<and> proper_name (name srv)
      \<and> nodes fs (rc @ [utf8 (name srv)]) \<noteq> Some Dir
      \<and> utf8_encode (py_join CRLF (phones srv)) \<noteq> None)"
section \<open>A concrete installation\<close>

text \<open>
  The closed statements below run the model on one installation: the server was started
  in \<^verbatim>\<open>/srv\<close>, so its phonebook is \<^verbatim>\<open>/srv/rksok_phonebook\<close>, which does not exist yet on
  \<open>example_fs\<close> and exists, empty, on \<open>example_fs_ready\<close>.
\<close>

definition example_root :: ustring where
  "example_root = ascii ''/srv/rksok_phonebook''"

definition example_fs :: filesystem where
  "example_fs =
     \<lparr>nodes = [[] \<mapsto> Dir, [ascii ''srv''] \<mapsto> Dir], cwd = [ascii ''srv''], trace = []\<rparr>"

definition example_fs_ready :: filesystem where
  "example_fs_ready =
     \<lparr>nodes = [[] \<mapsto> Dir, [ascii ''srv''] \<mapsto> Dir,
               [ascii ''srv'', ascii ''rksok_phonebook''] \<mapsto> Dir],
      cwd = [ascii ''srv''], trace = []\<rparr>"

text \<open>The same disk with one record, \<^verbatim>\<open>Ivan\<close>, holding the line \<^verbatim>\<open>+7123\<close>.\<close>

definition example_fs_ivan :: filesystem where
  "example_fs_ivan =
     \<lparr>nodes = [[] \<mapsto> Dir, [ascii ''srv''] \<mapsto> Dir,
               [ascii ''srv'', ascii ''rksok_phonebook''] \<mapsto> Dir,
               [ascii ''srv'', ascii ''rksok_phonebook'', ascii ''Ivan''] \<mapsto> File (utf8 (ascii ''+7123''))],
      cwd = [ascii ''srv''], trace = []\<rparr>"

text \<open>The disk with an empty phonebook and, beside the phonebook, the file \<^verbatim>\<open>/srv/x\<close>
  holding the line \<^verbatim>\<open>1\<close>.\<close>

definition example_fs_beside :: filesystem where
  "example_fs_beside =
     \<lparr>nodes = [[] \<mapsto> Dir, [ascii ''srv''] \<mapsto> Dir,
               [ascii ''srv'', ascii ''rksok_phonebook''] \<mapsto> Dir,
               [ascii ''srv'', ascii ''x''] \<mapsto> File (utf8 (ascii ''1''))],
      cwd = [ascii ''srv''], trace = []\<rparr>"

definition example_server :: RKSOKServer where
  "example_server =
     \<lparr>path_to_phonebook = example_root, name = [], request_type = GET, phones = []\<rparr>"

definition new_writer :: writer where
  "new_writer = \<lparr>written = [], closed = False\<rparr>"

text \<open>A validation server that accepts the connection and answers every query with the
  given text in one chunk.\<close>

definition authority_replying :: "ustring \<Rightarrow> authority" where
  "authority_replying verdict = Established (\<lambda>message. [utf8 verdict])"

definition verdict_allowed :: ustring where
  "verdict_allowed = validation_value ALLOWED @ [32] @ PROTOCOL @ TERMINATOR"

lemmas eval_defs =
  utf8_def example_root_def example_fs_def example_fs_ready_def example_server_def
  new_writer_def authority_replying_def verdict_allowed_def
  ascii_def CRLF_def TERMINATOR_def PROTOCOL_def ALLOWED_NAME_LENGTH_def
  ValidationWords_members_def RequestVerbs_members_def
  startswith_def endswith_def is_space_def not_space_def py_strip_def cont_def encode_cp_def
  re_seq_def re_lookahead_def name_pattern_def re_group_plus.simps py_count.simps
  resolve_def os_stat_def os_mkdir_def open_write_def open_read_def os_remove_def
  is_path_exists_def record_path_def response_line_def write_phones_def read_phones_def
  delete_file_def check_phones_in_request_def check_request_body_def is_valid_request_def
  tcp_echo_client_def write_and_close_def response_if_exception_def handle_echo_try_def
  caught_def handle_echo_def
  lookup_def inside_directory_def example_fs_ivan_def good_line_def trimmed_line_def
  fsencode_cp_def PATH_MAX_def NAME_MAX_def example_fs_beside_def

section \<open>UTF-8: encoding undoes decoding\<close>

lemma dm_div: "l < n \<Longrightarrow> (q * n + l) div n = (q::nat)" by simp
lemma dm_mod: "l < n \<Longrightarrow> (q * n + l) mod n = (l::nat)" by simp

lemma encode_cp_2': "2 \<le> h \<Longrightarrow> h < 32 \<Longrightarrow> l < 64 \<Longrightarrow>
  encode_cp (h * 0x40 + l) = Some [0xC0 + h, 0x80 + l]"
proof -
  assume a: "2 \<le> h" "h < 32" "l < 64"
  have 1: "\<not> h * 0x40 + l < 0x80" using a by simp
  have 2: "h * 0x40 + l < 0x800" using a by simp
  show ?thesis unfolding encode_cp_def using 1 2 a by simp
qed

lemma encode_cp_2: 
  assumes "0xC2 \<le> b0" "b0 < 0xE0" "cont b1"
  shows "encode_cp ((b0 - 0xC0) * 0x40 + (b1 - 0x80)) = Some [b0, b1]"
proof -
  obtain h where h: "b0 = 0xC0 + h" using assms(1) le_iff_add[of "0xC0" b0] by auto
  obtain l where l: "b1 = 0x80 + l" using assms(3) le_iff_add[of "0x80" b1] unfolding cont_def by auto
  have "2 \<le> h" "h < 32" "l < 64" using assms h l unfolding cont_def by auto
  from encode_cp_2'[OF this] show ?thesis by (simp add: h l)
qed

lemma encode_cp_3': "h < 16 \<Longrightarrow> m < 64 \<Longrightarrow> l < 64 \<Longrightarrow> (if h = 0 then 32 \<le> m else True) \<Longrightarrow>
  (if h = 13 then m < 32 else True) \<Longrightarrow> 
  encode_cp (h * 0x1000 + m * 0x40 + l) = Some [0xE0 + h, 0x80 + m, 0x80 + l]"
proof -
  assume a: "h < 16" "m < 64" "l < 64" "(if h = 0 then 32 \<le> m else True)" "(if h = 13 then m < 32 else True)"
  let ?c = "h * 0x1000 + m * 0x40 + l"
  have ml: "m * 0x40 + l < 0x1000" using a by simp
  have 1: "\<not> ?c < 0x800" using a by (cases "h = 0") auto
  have 2: "\<not> (0xD800 \<le> ?c \<and> ?c \<le> 0xDFFF)" 
  proof (cases "h = 13")
    case True then show ?thesis using a by simp
  next
    case False
    then consider "h \<le> 12" | "14 \<le> h" by linarith
    then show ?thesis using a by cases simp_all
  qed
  have 3: "?c < 0x10000" using a by simp
  have e: "?c = (h * 0x40 + m) * 0x40 + l" by simp
  have d1: "?c div 0x1000 = h" using ml by simp
  have d2: "?c div 0x40 = h * 0x40 + m" using dm_div[of l "0x40" "h * 0x40 + m"] a unfolding e by blast
  have d3: "(h * 0x40 + m) mod 0x40 = m" using a by simp
  have d4: "?c mod 0x40 = l" using dm_mod[of l "0x40" "h * 0x40 + m"] a unfolding e by blast
  show ?thesis unfolding encode_cp_def using 1 2 3 d1 d2 d3 d4 by simp
qed

lemma encode_cp_3:
  assumes "0xE0 \<le> b0" "b0 < 0xF0" "cont b1" "cont b2"
    "(if b0 = 0xE0 then 0xA0 \<le> b1 else True)" "(if b0 = 0xED then b1 \<le> 0x9F else True)"
  shows "encode_cp ((b0 - 0xE0) * 0x1000 + (b1 - 0x80) * 0x40 + (b2 - 0x80)) = Some [b0, b1, b2]"
proof -
  obtain h where h: "b0 = 0xE0 + h" using assms(1) le_iff_add[of "0xE0" b0] by auto
  obtain m where m: "b1 = 0x80 + m" using assms(3) le_iff_add[of "0x80" b1] unfolding cont_def by auto
  obtain l where l: "b2 = 0x80 + l" using assms(4) le_iff_add[of "0x80" b2] unfolding cont_def by auto
  have "h < 16" "m < 64" "l < 64" "(if h = 0 then 32 \<le> m else True)" "(if h = 13 then m < 32 else True)"
    using assms h m l unfolding cont_def by (auto split: if_splits)
  from encode_cp_3'[OF this] show ?thesis by (simp add: h m l)
qed

lemma encode_cp_4': "h < 5 \<Longrightarrow> k < 64 \<Longrightarrow> m < 64 \<Longrightarrow> l < 64 \<Longrightarrow> (if h = 0 then 16 \<le> k else True) \<Longrightarrow>
  (if h = 4 then k < 16 else True) \<Longrightarrow> 
  encode_cp (h * 0x40000 + k * 0x1000 + m * 0x40 + l) = Some [0xF0 + h, 0x80 + k, 0x80 + m, 0x80 + l]"
proof -
  assume a: "h < 5" "k < 64" "m < 64" "l < 64" "(if h = 0 then 16 \<le> k else True)" "(if h = 4 then k < 16 else True)"
  let ?c = "h * 0x40000 + k * 0x1000 + m * 0x40 + l"
  have kml: "k * 0x1000 + m * 0x40 + l < 0x40000" using a by simp
  have 1: "\<not> ?c < 0x10000" using a by (cases "h = 0") auto
  have 3: "?c < 0x110000" using a by (cases "h = 4") auto
  have e1: "?c = h * 0x40000 + (k * 0x1000 + m * 0x40 + l)" by simp
  have e2: "?c = (h * 0x40 + k) * 0x1000 + (m * 0x40 + l)" by simp
  have e3: "?c = ((h * 0x40 + k) * 0x40 + m) * 0x40 + l" by simp
  have ml: "m * 0x40 + l < 0x1000" using a by simp
  have d1: "?c div 0x40000 = h" using dm_div[of "k * 0x1000 + m * 0x40 + l" "0x40000" h] kml unfolding e1 by blast
  have d2: "?c div 0x1000 = h * 0x40 + k" using dm_div[of "m * 0x40 + l" "0x1000" "h * 0x40 + k"] ml unfolding e2 by blast
  have d3: "?c div 0x40 = (h * 0x40 + k) * 0x40 + m" using dm_div[of l "0x40" "(h * 0x40 + k) * 0x40 + m"] a unfolding e3 by blast
  have d4: "?c mod 0x40 = l" using dm_mod[of l "0x40" "(h * 0x40 + k) * 0x40 + m"] a unfolding e3 by blast
  have d5: "(h * 0x40 + k) mod 0x40 = k" using a by simp
  have d6: "((h * 0x40 + k) * 0x40 + m) mod 0x40 = m" using dm_mod[of m "0x40" "h * 0x40 + k"] a by blast
  have 0: "\<not> ?c < 0x80" "\<not> ?c < 0x800" "\<not> (0xD800 \<le> ?c \<and> ?c \<le> 0xDFFF)" using 1 by simp_all
  show ?thesis unfolding encode_cp_def using 0 1 3 d1 d2 d3 d4 d5 d6 by simp
qed

lemma encode_cp_4:
  assumes "0xF0 \<le> b0" "b0 < 0xF5" "cont b1" "cont b2" "cont b3"
    "(if b0 = 0xF0 then 0x90 \<le> b1 else True)" "(if b0 = 0xF4 then b1 \<le> 0x8F else True)"
  shows "encode_cp ((b0 - 0xF0) * 0x40000 + (b1 - 0x80) * 0x1000 + (b2 - 0x80) * 0x40 + (b3 - 0x80)) = Some [b0, b1, b2, b3]"
proof -
  obtain h where h: "b0 = 0xF0 + h" using assms(1) le_iff_add[of "0xF0" b0] by auto
  obtain k where k: "b1 = 0x80 + k" using assms(3) le_iff_add[of "0x80" b1] unfolding cont_def by auto
  obtain m where m: "b2 = 0x80 + m" using assms(4) le_iff_add[of "0x80" b2] unfolding cont_def by auto
  obtain l where l: "b3 = 0x80 + l" using assms(5) le_iff_add[of "0x80" b3] unfolding cont_def by auto
  have "h < 5" "k < 64" "m < 64" "l < 64" "(if h = 0 then 16 \<le> k else True)" "(if h = 4 then k < 16 else True)"
    using assms h k m l unfolding cont_def by (auto split: if_splits)
  from encode_cp_4'[OF this] show ?thesis by (simp add: h k m l)
qed

lemma utf8_encode_decode: "utf8_decode bs = Some s \<Longrightarrow> utf8_encode s = Some bs"
proof (induction bs arbitrary: s rule: utf8_decode.induct)
  case 1
  then show ?case by simp
next
  case (2 b0 bs)
  show ?case
  proof (cases "b0 < 0x80")
    case True
    with "2.prems" "2.IH"(1) show ?thesis by (auto simp: encode_cp_def)
  next
    case F1: False
    show ?thesis
    proof (cases "b0 < 0xE0")
      case True
      with F1 "2.prems" obtain b1 r t where *: "bs = b1 # r" "cont b1" "\<not> b0 < 0xC2" "utf8_decode r = Some t"
        "s = ((b0 - 0xC0) * 0x40 + (b1 - 0x80)) # t"
        by (auto split: if_splits list.splits)
      from "2.IH"(2)[OF F1 *(3) True *(1) *(2) *(4)] have "utf8_encode t = Some r" .
      with * True show ?thesis
        by (simp add: encode_cp_2)
    next
      case F2: False
      show ?thesis
      proof (cases "b0 < 0xF0")
        case True
        with F1 F2 "2.prems" obtain b1 b2 r t where *: "bs = b1 # b2 # r" 
          "cont b1 \<and> cont b2 \<and> (if b0 = 0xE0 then 0xA0 \<le> b1 else True) \<and> (if b0 = 0xED then b1 \<le> 0x9F else True)"
          "utf8_decode r = Some t"
          "s = ((b0 - 0xE0) * 0x1000 + (b1 - 0x80) * 0x40 + (b2 - 0x80)) # t"
          by (auto split: if_splits list.splits)
        have c2: "\<not> b0 < 0xC2" using F2 by simp
        from "2.IH"(3)[OF F1 c2 F2 True *(1) _ *(2) *(3)] have "utf8_encode t = Some r" by simp
        with * True F2 show ?thesis
          by (simp add: encode_cp_3)
      next
        case F3: False
        with F1 F2 "2.prems" obtain b1 b2 b3 r t where *: "bs = b1 # b2 # b3 # r" "b0 < 0xF5"
          "cont b1 \<and> cont b2 \<and> cont b3 \<and> (if b0 = 0xF0 then 0x90 \<le> b1 else True) \<and> (if b0 = 0xF4 then b1 \<le> 0x8F else True)"
          "utf8_decode r = Some t"
          "s = ((b0 - 0xF0) * 0x40000 + (b1 - 0x80) * 0x1000 + (b2 - 0x80) * 0x40 + (b3 - 0x80)) # t"
          by (auto split: if_splits list.splits)
        have c2: "\<not> b0 < 0xC2" using F2 by simp
        from "2.IH"(4)[OF F1 c2 F2 F3 *(2) *(1) _ _ *(3) *(4)] have "utf8_encode t = Some r" by simp
        with * F3 show ?thesis
          by (simp add: encode_cp_4)
      qed
    qed
  qed
qed

lemma decode_encode_cp:
  assumes "encode_cp c = Some b"
  shows "utf8_decode (b @ rest) = map_option (Cons c) (utf8_decode rest)"
proof -
  consider (one) "c < 0x80" | (two) "0x80 \<le> c" "c < 0x800"
    | (three) "0x800 \<le> c" "c < 0x10000" "\<not> (0xD800 \<le> c \<and> c \<le> 0xDFFF)"
    | (four) "0x10000 \<le> c" "c < 0x110000"
    using assms by (auto simp: encode_cp_def split: if_splits)
  then show ?thesis
  proof cases
    case one
    then show ?thesis using assms by (auto simp: encode_cp_def)
  next
    case two
    define h where "h = c div 0x40"
    define l where "l = c mod 0x40"
    have c: "c = h * 0x40 + l" by (simp add: h_def l_def)
    have hl: "2 \<le> h" "h < 32" "l < 64" using two by (simp_all add: h_def l_def)
    have b: "b = [0xC0 + h, 0x80 + l]" using assms two by (simp add: encode_cp_def h_def l_def)
    show ?thesis unfolding b using hl by (simp add: cont_def c)
  next
    case three
    define h where "h = c div 0x1000"
    define m where "m = (c div 0x40) mod 0x40"
    define l where "l = c mod 0x40"
    have c1: "c = (c div 0x40) * 0x40 + l" by (simp add: l_def)
    have c2: "c div 0x40 = (c div 0x40 div 0x40) * 0x40 + m" by (simp add: m_def)
    have c3: "c div 0x40 div 0x40 = h" by (simp add: h_def div_mult2_eq)
    have c: "c = h * 0x1000 + m * 0x40 + l" using c1 c2 c3 by simp
    have hl: "h < 16" "m < 64" "l < 64" using three by (simp_all add: h_def m_def l_def)
    have h0: "h \<noteq> 0 \<or> 32 \<le> m" using three(1) hl unfolding c by auto
    have h13: "h \<noteq> 13 \<or> m \<le> 31" using three(3) hl unfolding c by auto
    have b: "b = [0xE0 + h, 0x80 + m, 0x80 + l]"
      using assms three by (simp add: encode_cp_def h_def m_def l_def)
    show ?thesis unfolding b using hl h0 h13 by (auto simp: cont_def c)
  next
    case four
    define h where "h = c div 0x40000"
    define k where "k = (c div 0x1000) mod 0x40"
    define m where "m = (c div 0x40) mod 0x40"
    define l where "l = c mod 0x40"
    have c1: "c = (c div 0x40) * 0x40 + l" by (simp add: l_def)
    have c2: "c div 0x40 = (c div 0x40 div 0x40) * 0x40 + m" by (simp add: m_def)
    have c3: "c div 0x40 div 0x40 = c div 0x1000" by (simp add: div_mult2_eq)
    have c4: "c div 0x1000 = (c div 0x1000 div 0x40) * 0x40 + k" by (simp add: k_def)
    have c5: "c div 0x1000 div 0x40 = h" by (simp add: h_def div_mult2_eq)
    have c: "c = h * 0x40000 + k * 0x1000 + m * 0x40 + l" using c1 c2 c3 c4 c5 by simp
    have hl: "h < 5" "k < 64" "m < 64" "l < 64" using four by (simp_all add: h_def k_def m_def l_def)
    have h0: "h \<noteq> 0 \<or> 16 \<le> k" using four(1) hl unfolding c by auto
    have h4: "h \<noteq> 4 \<or> k \<le> 15" using four(2) hl unfolding c by auto
    have b: "b = [0xF0 + h, 0x80 + k, 0x80 + m, 0x80 + l]"
      using assms four by (simp add: encode_cp_def h_def k_def m_def l_def)
    show ?thesis unfolding b using hl h0 h4 by (auto simp: cont_def c)
  qed
qed

lemma utf8_decode_encode: "utf8_encode s = Some b \<Longrightarrow> utf8_decode b = Some s"
proof (induction s arbitrary: b)
  case Nil
  then show ?case by simp
next
  case (Cons c s)
  then obtain b1 b2 where *: "encode_cp c = Some b1" "utf8_encode s = Some b2" "b = b1 @ b2"
    by (auto split: option.splits)
  show ?case unfolding *(3) using decode_encode_cp[OF *(1), of b2] Cons.IH[OF *(2)] by simp
qed

text \<open>The encoding of path strings, and what the bytes of an encoded name are.\<close>

lemma encode_cp_fsencode: "encode_cp c = Some b \<Longrightarrow> fsencode_cp c = Some b"
  by (auto simp: fsencode_cp_def encode_cp_def split: if_splits)

lemma fsencode_utf8: "utf8_encode s = Some b \<Longrightarrow> fsencode s = Some b"
proof (induction s arbitrary: b)
  case Nil
  then show ?case by simp
next
  case (Cons c s)
  then obtain x y where x: "encode_cp c = Some x" and y: "utf8_encode s = Some y" and b: "b = x @ y"
    by (auto split: option.splits)
  from Cons.IH[OF y] encode_cp_fsencode[OF x] b show ?case by simp
qed

lemma fsencode_append:
  "fsencode a = Some x \<Longrightarrow> fsencode b = Some y \<Longrightarrow> fsencode (a @ b) = Some (x @ y)"
  by (induction a arbitrary: x) (auto split: option.splits)

lemma encode_cp_bytes:
  assumes "encode_cp c = Some b"
  shows "b \<noteq> []" "length b \<le> 4" "c < 0x80 \<Longrightarrow> b = [c]" "0x80 \<le> c \<Longrightarrow> \<forall>x\<in>set b. 0x80 \<le> x"
  using assms by (auto simp: encode_cp_def split: if_splits)

lemma utf8_encode_length: "utf8_encode s = Some b \<Longrightarrow> length b \<le> 4 * length s"
proof (induction s arbitrary: b)
  case Nil
  then show ?case by simp
next
  case (Cons c s)
  then obtain x y where x: "encode_cp c = Some x" and y: "utf8_encode s = Some y" and b: "b = x @ y"
    by (auto split: option.splits)
  from Cons.IH[OF y] encode_cp_bytes(2)[OF x] b show ?case by simp
qed

lemma utf8_encode_low:
  "utf8_encode s = Some b \<Longrightarrow> x < 0x80 \<Longrightarrow> (x \<in> set b) = (x \<in> set s)"
proof (induction s arbitrary: b)
  case Nil
  then show ?case by simp
next
  case (Cons c s)
  then obtain u y where u: "encode_cp c = Some u" and y: "utf8_encode s = Some y" and b: "b = u @ y"
    by (auto split: option.splits)
  have "(x \<in> set u) = (x = c)"
  proof (cases "c < 0x80")
    case True
    then show ?thesis using encode_cp_bytes(3)[OF u] by auto
  next
    case False
    then have "\<forall>z\<in>set u. 0x80 \<le> z" using encode_cp_bytes(4)[OF u] by simp
    then show ?thesis using Cons.prems(2) False by fastforce
  qed
  then show ?case using Cons.IH[OF y Cons.prems(2)] b by auto
qed

lemma utf8_encode_Nil: "utf8_encode s = Some [] \<Longrightarrow> s = []"
proof (cases s)
  case Nil
  then show ?thesis by simp
next
  case (Cons c cs)
  assume "utf8_encode s = Some []"
  then obtain u where "encode_cp c = Some u" "u = []" using Cons by (auto split: option.splits)
  then show ?thesis using encode_cp_bytes(1) by blast
qed

lemma utf8_Some: "utf8_encode s = Some b \<Longrightarrow> utf8 s = b"
  by (simp add: utf8_def)

lemma proper_name_bytes:
  assumes "proper_name N"
  shows "utf8_encode N = Some (utf8 N)" "fsencode N = Some (utf8 N)" "plain_name (utf8 N)"
    "length (utf8 N) \<le> 4 * ALLOWED_NAME_LENGTH"
proof -
  from assms obtain b where b: "utf8_encode N = Some b" by (auto simp: proper_name_def)
  then have u: "utf8 N = b" by (rule utf8_Some)
  show e: "utf8_encode N = Some (utf8 N)" using b u by simp
  then show "fsencode N = Some (utf8 N)" by (rule fsencode_utf8)
  have len: "length b \<le> 4 * length N" using b by (rule utf8_encode_length)
  then show "length (utf8 N) \<le> 4 * ALLOWED_NAME_LENGTH"
    using assms u by (simp add: proper_name_def)
  have ne: "b \<noteq> []" using utf8_encode_Nil[of N] b assms by (auto simp: proper_name_def)
  have sl: "0x2F \<notin> set b" "0 \<notin> set b"
    using utf8_encode_low[OF b, of "0x2F"] utf8_encode_low[OF b, of 0] assms
    by (simp_all add: proper_name_def)
  have dec: "utf8_decode b = Some N" using b by (rule utf8_decode_encode)
  have d1: "b \<noteq> [0x2E]" using dec assms by (auto simp: proper_name_def)
  have d2: "b \<noteq> [0x2E, 0x2E]" using dec assms by (auto simp: proper_name_def)
  have "length b \<le> NAME_MAX" using len assms
    by (simp add: proper_name_def ALLOWED_NAME_LENGTH_def NAME_MAX_def)
  then show "plain_name (utf8 N)" using ne sl d1 d2 u by (simp add: plain_name_def)
qed

section \<open>What the name pattern finds\<close>

lemma concat_map_Nil: "(\<And>y. y \<in> set ys \<Longrightarrow> f y = []) \<Longrightarrow> concat (map f ys) = []"
  by (induction ys) auto

lemma concat_map_single: "(\<And>y. y \<in> set ys \<Longrightarrow> f y = [y]) \<Longrightarrow> concat (map f ys) = ys"
  by (induction ys) auto

lemma re_class_plus_Nil: "s = [] \<or> \<not> Q (hd s) \<Longrightarrow> re_class_plus Q s = []"
  by (cases s) auto

lemma re_class_plus_shape:
  "s \<noteq> [] \<Longrightarrow> Q (hd s) \<Longrightarrow>
   \<exists>ys. re_class_plus Q s = dropWhile Q s # ys \<and> (\<forall>y\<in>set ys. y \<noteq> [] \<and> Q (hd y))"
proof (induction s)
  case Nil
  then show ?case by simp
next
  case (Cons c cs)
  then have c: "Q c" by simp
  show ?case
  proof (cases "cs = [] \<or> \<not> Q (hd cs)")
    case True
    then have "re_class_plus Q cs = []" by (rule re_class_plus_Nil)
    moreover have "dropWhile Q (c # cs) = cs" using True c by (cases cs) auto
    ultimately show ?thesis using c by simp
  next
    case False
    with Cons.IH obtain ys where ys: "re_class_plus Q cs = dropWhile Q cs # ys"
      "\<forall>y\<in>set ys. y \<noteq> [] \<and> Q (hd y)" by auto
    have "re_class_plus Q (c # cs) = dropWhile Q (c # cs) # (ys @ [cs])"
      using c ys(1) by simp
    moreover have "\<forall>y\<in>set (ys @ [cs]). y \<noteq> [] \<and> Q (hd y)" using ys(2) False by auto
    ultimately show ?thesis by blast
  qed
qed

lemma token_once_Nil: "s = [] \<or> is_space (hd s) \<Longrightarrow> token_once s = []"
  by (simp add: token_once_def re_seq_def re_class_plus_Nil not_space_def)

lemma token_once_eq:
  assumes "s \<noteq> []" "\<not> is_space (hd s)"
  shows "token_once s = re_class_plus is_space (dropWhile not_space s)"
proof -
  from re_class_plus_shape[of s not_space] assms obtain ys where
    ys: "re_class_plus not_space s = dropWhile not_space s # ys"
        "\<forall>y\<in>set ys. y \<noteq> [] \<and> not_space (hd y)"
    by (auto simp: not_space_def)
  have "concat (map (re_class_plus is_space) ys) = []"
    using ys(2) by (intro concat_map_Nil re_class_plus_Nil) (auto simp: not_space_def)
  then show ?thesis by (simp add: token_once_def re_seq_def ys(1))
qed

lemma tokens_Nil: "s = [] \<or> is_space (hd s) \<Longrightarrow> tokens s = []"
  by (subst re_group_plus.simps) (simp add: token_once_Nil)

lemma length_dropWhile_less: "s \<noteq> [] \<Longrightarrow> Q (hd s) \<Longrightarrow> length (dropWhile Q s) < length s"
  by (cases s) (auto simp: less_Suc_eq_le length_dropWhile_le)

lemma tokens_step:
  assumes "s \<noteq> []" "\<not> is_space (hd s)" "dropWhile not_space s \<noteq> []"
  shows "\<exists>zs. tokens s = tokens (dropWhile is_space (dropWhile not_space s))
                  @ [dropWhile is_space (dropWhile not_space s)] @ zs
              \<and> (\<forall>z\<in>set zs. z \<noteq> [] \<and> is_space (hd z))"
proof -
  let ?d = "dropWhile not_space s"
  let ?e = "dropWhile is_space ?d"
  let ?F = "\<lambda>r. if length r < length s then tokens r @ [r] else [r]"
  have dsp: "is_space (hd ?d)" using hd_dropWhile[OF assms(3)] by (simp add: not_space_def)
  from re_class_plus_shape[of ?d is_space, OF assms(3) dsp] obtain zs where
    zs: "re_class_plus is_space ?d = ?e # zs" "\<forall>z\<in>set zs. z \<noteq> [] \<and> is_space (hd z)"
    by auto
  have t: "token_once s = ?e # zs" using token_once_eq[OF assms(1,2)] zs(1) by simp
  have "length ?d < length s"
    using length_dropWhile_less[of s not_space] assms by (simp add: not_space_def)
  then have le: "length ?e < length s"
    using length_dropWhile_le[of is_space ?d] by linarith
  have "concat (map ?F zs) = zs"
    using zs(2) by (intro concat_map_single) (auto simp: tokens_Nil)
  then have "tokens s = tokens ?e @ [?e] @ zs"
    by (subst re_group_plus.simps) (simp add: t le)
  with zs(2) show ?thesis by blast
qed

lemma LA_append: "LA (xs @ ys) = LA xs @ LA ys"
  by (simp add: LA_def)

lemma PROTOCOL_hd: "startswith z PROTOCOL \<Longrightarrow> z \<noteq> [] \<and> \<not> is_space (hd z)"
  by (cases z) (auto simp: startswith_def PROTOCOL_def is_space_def)

lemma LA_spaces: "\<forall>z\<in>set zs. z \<noteq> [] \<and> is_space (hd z) \<Longrightarrow> LA zs = []"
  unfolding LA_def by (intro concat_map_Nil) (auto simp: re_lookahead_def dest: PROTOCOL_hd)

lemma PROTOCOL_not_space: "\<forall>c\<in>set PROTOCOL. not_space c"
  by (simp add: PROTOCOL_def not_space_def is_space_def)

lemma tokens_PROTOCOL: "tokens PROTOCOL = []"
proof -
  have d: "dropWhile not_space PROTOCOL = []" using PROTOCOL_not_space by simp
  have "PROTOCOL \<noteq> []" "\<not> is_space (hd PROTOCOL)" by (simp_all add: PROTOCOL_def is_space_def)
  then have "token_once PROTOCOL = re_class_plus is_space []" using token_once_eq[of PROTOCOL] d by metis
  then show ?thesis by (subst re_group_plus.simps) simp
qed

lemma LA_PROTOCOL: "LA [PROTOCOL] = [PROTOCOL]"
  by (simp add: LA_def re_lookahead_def startswith_def)

lemma dropWhile_not_space_tail:
  "dropWhile not_space (M @ [32] @ PROTOCOL) = dropWhile not_space M @ [32] @ PROTOCOL"
  by (simp add: dropWhile_append not_space_def is_space_def)

lemma dropWhile_is_space_tail:
  "dropWhile is_space (M @ [32] @ PROTOCOL) =
     (if dropWhile is_space M = [] then PROTOCOL else dropWhile is_space M @ [32] @ PROTOCOL)"
proof -
  have "dropWhile is_space ([32] @ PROTOCOL) = PROTOCOL"
    by (simp add: PROTOCOL_def is_space_def)
  then show ?thesis by (auto simp: dropWhile_append simp del: append.simps)
qed

lemma tokens_find_protocol:
  "M \<noteq> [] \<Longrightarrow> \<not> is_space (hd M) \<Longrightarrow> \<exists>xs. LA (tokens (M @ [32] @ PROTOCOL)) = PROTOCOL # xs"
proof (induction "length M" arbitrary: M rule: less_induct)
  case less
  let ?s = "M @ [32] @ PROTOCOL"
  let ?M1 = "dropWhile not_space M"
  let ?M2 = "dropWhile is_space ?M1"
  have s: "?s \<noteq> []" "\<not> is_space (hd ?s)" using less.prems by auto
  have d: "dropWhile not_space ?s = ?M1 @ [32] @ PROTOCOL" by (rule dropWhile_not_space_tail)
  then have dn: "dropWhile not_space ?s \<noteq> []" by simp
  from tokens_step[OF s dn] obtain zs where
    zs: "tokens ?s = tokens (dropWhile is_space (?M1 @ [32] @ PROTOCOL))
                     @ [dropWhile is_space (?M1 @ [32] @ PROTOCOL)] @ zs"
        "\<forall>z\<in>set zs. z \<noteq> [] \<and> is_space (hd z)"
    unfolding d by blast
  have la: "LA (tokens ?s) = LA (tokens (dropWhile is_space (?M1 @ [32] @ PROTOCOL)))
                     @ LA [dropWhile is_space (?M1 @ [32] @ PROTOCOL)]"
    using LA_spaces[OF zs(2)] by (simp only: zs(1) LA_append append_Nil2)
  show ?case
  proof (cases "?M2 = []")
    case True
    then have "dropWhile is_space (?M1 @ [32] @ PROTOCOL) = PROTOCOL"
      by (simp add: dropWhile_is_space_tail del: append.simps dropWhile_eq_Nil_conv)
    then show ?thesis
      unfolding la by (simp add: tokens_PROTOCOL LA_PROTOCOL) (simp add: LA_def)
  next
    case False
    then have e: "dropWhile is_space (?M1 @ [32] @ PROTOCOL) = ?M2 @ [32] @ PROTOCOL"
      by (simp add: dropWhile_is_space_tail del: append.simps dropWhile_eq_Nil_conv)
    have "length ?M1 < length M"
      using length_dropWhile_less[of M not_space] less.prems by (simp add: not_space_def)
    then have "length ?M2 < length M"
      using length_dropWhile_le[of is_space ?M1] by linarith
    moreover have "\<not> is_space (hd ?M2)" using hd_dropWhile[OF False] .
    ultimately obtain xs where "LA (tokens (?M2 @ [32] @ PROTOCOL)) = PROTOCOL # xs"
      using less.hyps[of ?M2] False by blast
    then show ?thesis
      unfolding la e by simp
  qed
qed

lemma name_pattern_eq:
  "name_pattern s = concat (map (\<lambda>r. LA (tokens r)) (re_class_plus is_space s))"
  by (simp add: name_pattern_def re_seq_def[abs_def] LA_def token_once_def)

lemma name_pattern_not_space: "s = [] \<or> \<not> is_space (hd s) \<Longrightarrow> name_pattern s = []"
  by (simp add: name_pattern_eq re_class_plus_Nil)

lemma name_pattern_at_space:
  assumes "\<exists>c\<in>set N. \<not> is_space c"
  shows "\<exists>xs. name_pattern ([32] @ N @ [32] @ PROTOCOL) = PROTOCOL # xs"
proof -
  let ?s = "[32] @ N @ [32] @ PROTOCOL"
  let ?M = "dropWhile is_space N"
  have M: "?M \<noteq> []" "\<not> is_space (hd ?M)" using assms hd_dropWhile[of is_space N] by auto
  have sp: "is_space 32" by (simp add: is_space_def)
  from assms obtain c where c: "c \<in> set N" "\<not> is_space c" by blast
  have "dropWhile is_space (N @ ([32] @ PROTOCOL)) = ?M @ ([32] @ PROTOCOL)"
    using c by (rule dropWhile_append1)
  then have d: "dropWhile is_space ?s = ?M @ [32] @ PROTOCOL"
    using sp by simp
  from re_class_plus_shape[of ?s is_space] sp obtain ys where
    ys: "re_class_plus is_space ?s = (?M @ [32] @ PROTOCOL) # ys"
        "\<forall>y\<in>set ys. y \<noteq> [] \<and> is_space (hd y)"
    unfolding d by auto
  have "concat (map (\<lambda>r. LA (tokens r)) ys) = []"
    using ys(2) by (intro concat_map_Nil) (simp add: tokens_Nil LA_def)
  then have "name_pattern ?s = LA (tokens (?M @ [32] @ PROTOCOL))"
    by (simp add: name_pattern_eq ys(1) del: append.simps)
  with tokens_find_protocol[OF M] show ?thesis by simp
qed

lemma re_search_skip:
  "\<forall>c\<in>set V. \<not> is_space c \<Longrightarrow> s \<noteq> [] \<Longrightarrow> re_search name_pattern (V @ s) = re_search name_pattern s"
proof (induction V)
  case Nil
  then show ?case by simp
next
  case (Cons v V)
  then have "name_pattern (v # V @ s) = []" by (intro name_pattern_not_space) simp
  with Cons show ?case by simp
qed

lemma re_search_name:
  assumes "\<forall>c\<in>set V. \<not> is_space c" "\<exists>c\<in>set N. \<not> is_space c"
  shows "re_search name_pattern (V @ [32] @ N @ [32] @ PROTOCOL) = Some ([32] @ N @ [32])"
proof -
  from name_pattern_at_space[OF assms(2)] obtain xs where
    xs: "name_pattern ([32] @ N @ [32] @ PROTOCOL) = PROTOCOL # xs" by blast
  have "re_search name_pattern ([32] @ N @ [32] @ PROTOCOL) = Some ([32] @ N @ [32])"
    using xs by simp
  then show ?thesis using re_search_skip[OF assms(1), of "[32] @ N @ [32] @ PROTOCOL"] by simp
qed

section \<open>Facts about the string methods\<close>

lemma split_crlf_line:
  "13 \<notin> set L \<Longrightarrow> split_crlf acc (L @ CRLF @ rest) = (acc @ L) # split_crlf [] rest"
proof (induction L arbitrary: acc)
  case Nil
  then show ?case by (simp add: CRLF_def)
next
  case (Cons c L)
  then have c: "c \<noteq> 13" by auto
  obtain d ds where d: "L @ CRLF @ rest = d # ds" by (cases "L @ CRLF @ rest") (auto simp: CRLF_def)
  have "split_crlf acc ((c # L) @ CRLF @ rest) = split_crlf (acc @ [c]) (L @ CRLF @ rest)"
    using c d by simp
  also have "\<dots> = (acc @ [c] @ L) # split_crlf [] rest" using Cons by simp
  finally show ?case by simp
qed

lemma split_crlf_head: "\<exists>p ps. split_crlf acc s = (acc @ p) # ps"
proof (induction acc s rule: split_crlf.induct)
  case (1 piece)
  then show ?case by simp
next
  case (2 piece c)
  then show ?case by simp
next
  case (3 piece c d cs)
  show ?case
  proof (cases "c = 13 \<and> d = 10")
    case True
    then show ?thesis by simp
  next
    case False
    with 3 obtain p ps where "split_crlf (piece @ [c]) (d # cs) = ((piece @ [c]) @ p) # ps" by blast
    then have "split_crlf piece (c # d # cs) = (piece @ (c # p)) # ps" using False by simp
    then show ?thesis by blast
  qed
qed

lemma split_crlf_first:
  assumes "c \<noteq> 13"
  shows "\<exists>p ps. split_crlf [] (c # cs) = (c # p) # ps"
proof (cases cs)
  case Nil
  then show ?thesis by simp
next
  case (Cons d ds)
  from split_crlf_head[of "[c]" "d # ds"] obtain p ps where
    "split_crlf [c] (d # ds) = ([c] @ p) # ps" by blast
  then show ?thesis using Cons assms by simp
qed

lemma endswith_append: "endswith s (a @ b) \<Longrightarrow> endswith s b"
  unfolding endswith_def
proof safe
  assume l: "length (a @ b) \<le> length s" and d: "drop (length s - length (a @ b)) s = a @ b"
  show "length b \<le> length s" using l by simp
  have "drop (length a) (drop (length s - length (a @ b)) s) = b" unfolding d by simp
  moreover have "length a + (length s - length (a @ b)) = length s - length b" using l by simp
  ultimately show "drop (length s - length b) s = b" by (simp add: add.commute)
qed

lemma endswith_appendI: "endswith (a @ b) b"
  by (simp add: endswith_def)

lemma py_count_ge1: "sub \<noteq> [] \<Longrightarrow> 1 \<le> py_count (a @ sub @ r) sub"
proof (induction a)
  case Nil
  then show ?case by (subst py_count.simps) (simp add: startswith_def)
next
  case (Cons x a)
  then show ?case by (subst py_count.simps) simp
qed

lemma py_count_ge2:
  assumes "sub \<noteq> []"
  shows "2 \<le> py_count (a @ sub @ b @ sub @ c) sub"
proof (induction a)
  case Nil
  have "py_count (sub @ b @ sub @ c) sub = Suc (py_count (b @ sub @ c) sub)"
    using assms by (subst py_count.simps) (simp add: startswith_def)
  then show ?case using py_count_ge1[OF assms, of b c] by simp
next
  case (Cons x a)
  let ?s = "(x # a) @ sub @ b @ sub @ c"
  show ?case
  proof (cases "startswith ?s sub")
    case False
    then have "py_count ?s sub = py_count (a @ sub @ b @ sub @ c) sub"
      using assms by (subst py_count.simps) simp
    then show ?thesis using Cons by simp
  next
    case True
    have "\<exists>y. drop (length sub) ?s = y @ sub @ c"
    proof -
      define xs where "xs = (x # a) @ sub @ b"
      have "length sub \<le> length xs" by (simp add: xs_def)
      then have "drop (length sub) (xs @ sub @ c) = drop (length sub) xs @ sub @ c"
        by simp
      then show ?thesis by (auto simp: xs_def)
    qed
    then obtain y where y: "drop (length sub) ?s = y @ sub @ c" by blast
    have "py_count ?s sub = Suc (py_count (drop (length sub) ?s) sub)"
      using assms True by (subst py_count.simps) simp
    then show ?thesis using py_count_ge1[OF assms, of y c] y by simp
  qed
qed

lemma length_py_strip: "length (py_strip s) \<le> length s"
proof -
  have "length (py_strip s) \<le> length (dropWhile is_space s)"
    unfolding py_strip_def using length_dropWhile_le[of is_space "rev (dropWhile is_space s)"] by simp
  then show ?thesis using length_dropWhile_le[of is_space s] by linarith
qed

lemma py_strip_nonempty: "py_strip s \<noteq> [] \<Longrightarrow> \<exists>c\<in>set s. \<not> is_space c"
  unfolding py_strip_def by (auto dest!: set_dropWhileD)

lemma verb_not_space: "\<forall>c\<in>set (verb_value verb). \<not> is_space c"
  by (cases verb) (simp_all add: is_space_def)

lemma verb_no_cr: "13 \<notin> set (verb_value verb)"
  by (cases verb) simp_all

lemma find_verb:
  "find (\<lambda>v. startswith (verb_value verb @ [32] @ X) (verb_value v @ [32])) RequestVerbs_members
   = Some verb"
  by (cases verb) (simp_all add: RequestVerbs_members_def startswith_def)

lemma find_verb_Some:
  "find (\<lambda>v. startswith raw (verb_value v @ [32])) RequestVerbs_members = Some verb
   \<Longrightarrow> startswith raw (verb_value verb @ [32])"
  by (auto simp: find_Some_iff)

lemma startswith_verb_hd:
  "startswith raw (verb_value verb @ [32]) \<Longrightarrow> \<exists>c cs. raw = c # cs \<and> c \<noteq> 13"
  by (cases verb; cases raw) (auto simp: startswith_def)

lemma py_count_one: "13 \<notin> set L \<Longrightarrow> py_count (L @ TERMINATOR) TERMINATOR = 1"
proof (induction L)
  case Nil
  then show ?case by (simp add: py_count.simps startswith_def TERMINATOR_def)
next
  case (Cons c L)
  then have "\<not> startswith ((c # L) @ TERMINATOR) TERMINATOR"
    by (auto simp: startswith_def TERMINATOR_def)
  then have "py_count ((c # L) @ TERMINATOR) TERMINATOR = py_count (L @ TERMINATOR) TERMINATOR"
    by (subst py_count.simps) (simp add: TERMINATOR_def)
  then show ?case using Cons by simp
qed

lemma split_crlf_single:
  assumes "13 \<notin> set L"
  shows "split_crlf [] (L @ TERMINATOR) = [L, [], []]"
proof -
  have "split_crlf [] (L @ CRLF @ CRLF) = ([] @ L) # split_crlf [] CRLF"
    using split_crlf_line[OF assms, of "[]" CRLF] .
  then show ?thesis by (simp add: CRLF_def TERMINATOR_def)
qed

lemma endswith_last: "endswith (X @ [a] @ T) ([b] @ T) \<Longrightarrow> a = b"
  by (simp add: endswith_def)

lemma universal_newlines_plain:
  "13 \<notin> set l \<Longrightarrow> universal_newlines (l @ rest) = l @ universal_newlines rest"
proof (induction l)
  case Nil
  then show ?case by simp
next
  case (Cons c l)
  then have c: "c \<noteq> 13" and IH: "universal_newlines (l @ rest) = l @ universal_newlines rest"
    by auto
  show ?case
  proof (cases "l @ rest")
    case Nil
    then show ?thesis using c by simp
  next
    case (Cons d ds)
    then have "universal_newlines ((c # l) @ rest) = c # universal_newlines (l @ rest)"
      using c by simp
    then show ?thesis using IH by simp
  qed
qed

lemma universal_newlines_join:
  "list_all (\<lambda>l. 13 \<notin> set l) P \<Longrightarrow> universal_newlines (py_join CRLF P) = py_join [10] P"
proof (induction CRLF P rule: py_join.induct)
  case 1
  then show ?case by simp
next
  case (2 x)
  then show ?case using universal_newlines_plain[of x "[]"] by simp
next
  case (3 x y ys)
  then have "universal_newlines (py_join CRLF (y # ys)) = py_join [10] (y # ys)" by simp
  moreover have "universal_newlines (x @ CRLF @ py_join CRLF (y # ys))
      = x @ 10 # universal_newlines (py_join CRLF (y # ys))"
    using 3(2) universal_newlines_plain[of x "CRLF @ py_join CRLF (y # ys)"]
    by (simp add: CRLF_def)
  ultimately show ?case by simp
qed

lemma readlines_plain:
  "10 \<notin> set l \<Longrightarrow> readlines acc (l @ rest) = readlines (acc @ l) rest"
  by (induction l arbitrary: acc) auto

lemma strip_hd: assumes "py_strip l = l" "l \<noteq> []" shows "\<not> is_space (hd l)"
proof
  assume "is_space (hd l)"
  then have "length (dropWhile is_space l) < length l"
    using assms(2) by (cases l) (auto simp: less_Suc_eq_le length_dropWhile_le)
  moreover have "length (py_strip l) \<le> length (dropWhile is_space l)"
    unfolding py_strip_def using length_dropWhile_le[of is_space "rev (dropWhile is_space l)"] by simp
  ultimately show False using assms(1) by simp
qed

lemma strip_last: assumes "py_strip l = l" "l \<noteq> []" shows "\<not> is_space (last l)"
proof
  assume sp: "is_space (last l)"
  have d: "dropWhile is_space l = l" using strip_hd[OF assms] assms(2) by (cases l) auto
  have "rev l \<noteq> []" "is_space (hd (rev l))" using assms(2) sp by (simp_all add: hd_rev)
  then have "length (dropWhile is_space (rev l)) < length (rev l)"
    by (cases "rev l") (auto simp: less_Suc_eq_le length_dropWhile_le)
  then have "length (py_strip l) < length l" by (simp add: py_strip_def d)
  then show False using assms(1) by simp
qed

lemma strip_line_feed: assumes "py_strip l = l" "l \<noteq> []" shows "py_strip (l @ [10]) = l"
proof -
  have h: "\<not> is_space (hd l)" and t: "\<not> is_space (last l)"
    using strip_hd[OF assms] strip_last[OF assms] by auto
  have 1: "dropWhile is_space (l @ [10]) = l @ [10]" using h assms(2) by (cases l) auto
  have "dropWhile is_space (rev l) = rev l"
    using t assms(2) by (cases "rev l") (auto simp: last_rev[symmetric] simp del: last_rev)
  then have 2: "dropWhile is_space (rev (l @ [10])) = rev l" by (simp add: is_space_def)
  show ?thesis by (simp add: py_strip_def 1 2 del: rev_append)
qed

lemma readlines_join:
  "list_all good_line P \<Longrightarrow> map py_strip (readlines [] (py_join [10] P)) = P"
proof (induction "[10::nat]" P rule: py_join.induct)
  case 1
  then show ?case by simp
next
  case (2 x)
  then have "readlines [] x = [x]" using readlines_plain[of x "[]" "[]"] by (simp add: good_line_def)
  then show ?case using 2 by (simp add: good_line_def)
next
  case (3 x y ys)
  then have x: "good_line x" and IH: "map py_strip (readlines [] (py_join [10] (y # ys))) = y # ys"
    by auto
  have "readlines [] (x @ [10] @ py_join [10] (y # ys))
        = (x @ [10]) # readlines [] (py_join [10] (y # ys))"
    using x readlines_plain[of x "[]" "10 # py_join [10] (y # ys)"] by (simp add: good_line_def)
  then show ?case using IH x strip_line_feed[of x] by (simp add: good_line_def)
qed

lemma lines_round_trip:
  assumes "list_all good_line P"
  shows "map py_strip (readlines [] (universal_newlines (py_join CRLF P))) = P"
proof -
  have "list_all (\<lambda>l. 13 \<notin> set l) P" using assms by (simp add: list_all_iff good_line_def)
  then show ?thesis using readlines_join[OF assms] by (simp add: universal_newlines_join)
qed


text \<open>The same for lines that may be empty: only an empty line at the end of several is
  lost.\<close>

lemma strip_line_feed_any: assumes "py_strip l = l" shows "py_strip (l @ [10]) = l"
proof (cases "l = []")
  case True
  then show ?thesis by (simp add: py_strip_def is_space_def)
next
  case False
  with assms show ?thesis by (rule strip_line_feed)
qed

lemma readlines_join_trimmed:
  "list_all trimmed_line P \<Longrightarrow> P = [] \<or> last P \<noteq> [] \<Longrightarrow>
   map py_strip (readlines [] (py_join [10] P)) = P"
proof (induction "[10::nat]" P rule: py_join.induct)
  case 1
  then show ?case by simp
next
  case (2 x)
  then have x: "x \<noteq> []" "10 \<notin> set x" "py_strip x = x" by (simp_all add: trimmed_line_def)
  then have "readlines [] x = [x]" using readlines_plain[of x "[]" "[]"] by simp
  then show ?case using x by simp
next
  case (3 x y ys)
  then have x: "10 \<notin> set x" "py_strip x = x"
    and IH: "map py_strip (readlines [] (py_join [10] (y # ys))) = y # ys"
    by (simp_all add: trimmed_line_def)
  have "readlines [] (x @ [10] @ py_join [10] (y # ys))
        = (x @ [10]) # readlines [] (py_join [10] (y # ys))"
    using x(1) readlines_plain[of x "[]" "10 # py_join [10] (y # ys)"] by simp
  then show ?case using IH strip_line_feed_any[OF x(2)] by simp
qed

lemma lines_round_trip_trimmed:
  assumes "list_all trimmed_line P" "length P \<le> 1 \<or> last P \<noteq> []"
  shows "py_join CRLF (map py_strip (readlines [] (universal_newlines (py_join CRLF P))))
         = py_join CRLF P"
proof (cases "P = [[]]")
  case True
  then show ?thesis by simp
next
  case False
  have "P = [] \<or> last P \<noteq> []"
  proof (cases P)
    case Nil
    then show ?thesis by simp
  next
    case (Cons x xs)
    show ?thesis
    proof (cases xs)
      case Nil
      then show ?thesis using Cons False by simp
    next
      case (Cons y ys)
      then show ?thesis using assms(2) \<open>P = x # xs\<close> by simp
    qed
  qed
  moreover have "list_all (\<lambda>l. 13 \<notin> set l) P"
    using assms(1) by (simp add: list_all_iff trimmed_line_def)
  ultimately show ?thesis
    using readlines_join_trimmed[OF assms(1)] by (simp add: universal_newlines_join)
qed
section \<open>Facts about the file system and the record store\<close>

lemma walk_cong_dirs:
  "(\<And>x. (nd x = Some Dir) = (nd' x = Some Dir)) \<Longrightarrow> walk nd cur cs = walk nd' cur cs"
  by (induction cs arbitrary: cur) auto

lemma resolve_cong:
  assumes "\<And>x. (nodes fs x = Some Dir) = (nodes fs' x = Some Dir)" "cwd fs' = cwd fs"
  shows "resolve fs' p = resolve fs p"
  using walk_cong_dirs[of "nodes fs" "nodes fs'", OF assms(1)] assms(2)
  by (simp add: resolve_def split: option.split)

lemma resolve_trace [simp]: "resolve (fs\<lparr>trace := t\<rparr>) p = resolve fs p"
  by (simp add: resolve_def split: option.split)

lemma resolve_put_file:
  assumes "nodes fs k \<noteq> Some Dir"
  shows "resolve (fs\<lparr>nodes := (nodes fs)(k \<mapsto> File b)\<rparr>) p = resolve fs p"
  by (rule resolve_cong) (use assms in auto)

lemma resolve_remove_file:
  assumes "nodes fs k = Some (File b)"
  shows "resolve (fs\<lparr>nodes := (nodes fs)(k := None)\<rparr>) p = resolve fs p"
  by (rule resolve_cong) (use assms in auto)

lemma is_path_exists_eq:
  "is_path_exists fs p = (lookup fs p \<noteq> None, fs\<lparr>trace := trace fs @ [Stat p]\<rparr>)"
  by (simp add: is_path_exists_def os_stat_def lookup_def Let_def split: result.split option.split)

lemma split_slash_plain:
  "0x2F \<notin> set c \<Longrightarrow> split_slash acc (c @ rest) = split_slash (acc @ c) rest"
  by (induction c arbitrary: acc) auto

lemma split_slash_abs_path:
  "list_all plain_name cs \<Longrightarrow>
   split_slash acc (abs_path cs) = (if cs = [] then [acc] else acc # cs)"
proof (induction cs arbitrary: acc)
  case Nil
  then show ?case by (simp add: abs_path_def)
next
  case (Cons c cs)
  then have pc: "plain_name c" and cs: "list_all plain_name cs" by simp_all
  from pc have c: "0x2F \<notin> set c" by (simp add: plain_name_def)
  have "split_slash acc (abs_path (c # cs)) = acc # split_slash [] (c @ abs_path cs)"
    by (simp add: abs_path_def)
  also have "\<dots> = acc # split_slash c (abs_path cs)"
    using split_slash_plain[OF c, of "[]" "abs_path cs"] by simp
  also have "\<dots> = acc # c # cs" using Cons.IH[OF cs, of c] by simp
  finally show ?case by simp
qed

lemma walk_plain:
  "list_all plain_name cs \<Longrightarrow> (\<And>i. i < length cs \<Longrightarrow> nd (cur @ take i cs) = Some Dir) \<Longrightarrow>
   walk nd cur cs = Some (cur @ cs)"
proof (induction cs arbitrary: cur)
  case Nil
  then show ?case by simp
next
  case (Cons c cs)
  have d: "nd cur = Some Dir" using Cons.prems(2)[of 0] by simp
  have pc: "plain_name c" and cs: "list_all plain_name cs"
    using Cons.prems(1) by simp_all
  from pc have c: "c \<noteq> []" "c \<noteq> [0x2E]" "c \<noteq> [0x2E, 0x2E]" "\<not> NAME_MAX < length c"
    by (simp_all add: plain_name_def)
  have "\<And>i. i < length cs \<Longrightarrow> nd ((cur @ [c]) @ take i cs) = Some Dir"
    using Cons.prems(2)[of "Suc i" for i] by simp
  from Cons.IH[OF cs this] have "walk nd (cur @ [c]) cs = Some ((cur @ [c]) @ cs)" .
  then show ?case using d c by simp
qed

lemma abs_path_props:
  assumes "cs \<noteq> []" "list_all plain_name cs"
  shows "abs_path cs \<noteq> []" "hd (abs_path cs) = 0x2F" "0 \<notin> set (abs_path cs)"
proof -
  obtain c cs' where "cs = c # cs'" using assms(1) by (cases cs) auto
  then show "abs_path cs \<noteq> []" "hd (abs_path cs) = 0x2F" by (simp_all add: abs_path_def)
  show "0 \<notin> set (abs_path cs)"
    using assms(2) by (induction cs) (auto simp: abs_path_def plain_name_def)
qed

lemma resolve_abs_path:
  assumes "cs \<noteq> []" "list_all plain_name cs" "\<And>i. i < length cs \<Longrightarrow> nodes fs (take i cs) = Some Dir"
    and "fsencode p = Some (abs_path cs)" "length (abs_path cs) < PATH_MAX"
  shows "resolve fs p = Return cs"
proof -
  have root: "nodes fs [] = Some Dir" using assms(3)[of 0] assms(1) by simp
  have "walk (nodes fs) [] cs = Some ([] @ cs)"
    using assms(3) by (intro walk_plain[OF assms(2)]) simp
  then have "walk (nodes fs) [] ([] # cs) = Some cs" using root by simp
  then show ?thesis
    using abs_path_props[OF assms(1,2)] split_slash_abs_path[OF assms(2), of "[]"] assms(1,4,5)
    by (simp add: resolve_def)
qed

lemma record_path_bytes:
  assumes "fsencode (path_to_phonebook srv) = Some (abs_path rc)" "fsencode (name srv) = Some nb"
  shows "fsencode (record_path srv) = Some (abs_path (rc @ [nb]))"
proof -
  have "fsencode ([0x2F] @ name srv) = Some ([0x2F] @ nb)"
    using assms(2) by (simp add: fsencode_cp_def encode_cp_def)
  from fsencode_append[OF assms(1) this] show ?thesis
    by (simp add: record_path_def abs_path_def)
qed

lemma length_abs_path_snoc: "length (abs_path (rc @ [nb])) = length (abs_path rc) + 1 + length nb"
  by (simp add: abs_path_def)

lemma write_phones_completes:
  assumes "store_ready rc srv fs"
  shows "\<exists>fs1. write_phones srv fs = (Return (response_line OK @ CRLF), fs1)"
proof -
  let ?root = "path_to_phonebook srv"
  define nb where "nb = utf8 (name srv)"
  let ?k = "rc @ [nb]"
  from assms have rc: "rc \<noteq> []" "list_all plain_name rc" "fsencode ?root = Some (abs_path rc)"
    and len: "length (abs_path rc) + 1 + 4 * ALLOWED_NAME_LENGTH < PATH_MAX"
    and dirs: "\<And>i. i < length rc \<Longrightarrow> nodes fs (take i rc) = Some Dir"
    and root: "nodes fs rc = None \<or> nodes fs rc = Some Dir"
    and nm: "proper_name (name srv)" and tgt: "nodes fs ?k \<noteq> Some Dir"
    and enc: "utf8_encode (py_join CRLF (phones srv)) \<noteq> None"
    by (auto simp: store_ready_def phonebook_ready_def list_all_iff nb_def)
  from enc obtain b where b: "utf8_encode (py_join CRLF (phones srv)) = Some b" by auto
  have nbs: "fsencode (name srv) = Some nb" "plain_name nb" "length nb \<le> 4 * ALLOWED_NAME_LENGTH"
    using proper_name_bytes[OF nm] by (simp_all add: nb_def)
  have rr: "resolve fs ?root = Return rc"
    using rc(1,2) dirs rc(3) len by (intro resolve_abs_path) simp_all
  define fsa where "fsa = fs\<lparr>trace := trace fs @ [Stat ?root]\<rparr>"
  define fs2 where "fs2 = (if nodes fs rc = None
      then fsa\<lparr>trace := trace fsa @ [Mkdir ?root], nodes := (nodes fsa)(rc \<mapsto> Dir)\<rparr> else fsa)"
  have parent: "nodes fs (butlast rc) = Some Dir"
    using dirs[of "length rc - 1"] rc(1) by (simp add: butlast_conv_take)
  have step1: "(case is_path_exists fs ?root of
        (ex, fs1) \<Rightarrow> (if \<not> ex then os_mkdir fs1 ?root else (Return (), fs1))) = (Return (), fs2)"
    using rr root parent rc(1)
    by (auto simp: is_path_exists_eq lookup_def os_mkdir_def fs2_def fsa_def Let_def)
  have n2: "nodes fs2 rc = Some Dir" using root by (auto simp: fs2_def fsa_def)
  have d2: "\<And>i. i < length rc \<Longrightarrow> nodes fs2 (take i rc) = Some Dir"
    using dirs by (auto simp: fs2_def fsa_def)
  have k2: "nodes fs2 ?k \<noteq> Some Dir" using tgt by (auto simp: fs2_def fsa_def)
  have dk: "\<And>i. i < length ?k \<Longrightarrow> nodes fs2 (take i ?k) = Some Dir"
  proof -
    fix i assume "i < length ?k"
    then consider "i < length rc" | "i = length rc" by fastforce
    then show "nodes fs2 (take i ?k) = Some Dir"
      using d2 n2 by cases simp_all
  qed
  have lk: "length (abs_path ?k) < PATH_MAX"
    using len nbs(3) by (simp add: length_abs_path_snoc)
  have rk: "resolve fs2 (record_path srv) = Return ?k"
    using rc(2) nbs(2) dk record_path_bytes[OF rc(3) nbs(1)] lk
    by (intro resolve_abs_path) simp_all
  have ow: "open_write fs2 (record_path srv) (py_join CRLF (phones srv))
      = (Return (), fs2\<lparr>trace := trace fs2 @ [OpenWrite (record_path srv)],
                         nodes := (nodes fs2)(?k \<mapsto> File b)\<rparr>)"
    using rk k2 n2 b by (simp add: open_write_def Let_def)
  show ?thesis
    using step1 ow unfolding write_phones_def
    by (auto split: prod.splits)
qed

lemma write_phones_Return:
  assumes "write_phones srv fs = (Return r, fs1)"
  shows "r = response_line OK @ CRLF
    \<and> (\<exists>k b. resolve fs1 (record_path srv) = Return k \<and> nodes fs1 k = Some (File b)
          \<and> utf8_encode (py_join CRLF (phones srv)) = Some b)"
proof -
  define fs2 where "fs2 = snd (if \<not> fst (is_path_exists fs (path_to_phonebook srv))
      then os_mkdir (snd (is_path_exists fs (path_to_phonebook srv))) (path_to_phonebook srv)
      else (Return (), snd (is_path_exists fs (path_to_phonebook srv))))"
  have ow: "open_write fs2 (record_path srv) (py_join CRLF (phones srv)) = (Return (), fs1)"
    and r: "r = response_line OK @ CRLF"
    using assms unfolding write_phones_def fs2_def
    by (auto split: prod.splits result.splits if_splits)
  from ow obtain k b where k: "resolve fs2 (record_path srv) = Return k"
    "nodes fs2 k \<noteq> Some Dir" "utf8_encode (py_join CRLF (phones srv)) = Some b"
    "fs1 = fs2\<lparr>trace := trace fs2 @ [OpenWrite (record_path srv)], nodes := (nodes fs2)(k \<mapsto> File b)\<rparr>"
    by (auto simp: open_write_def Let_def split: result.splits if_splits option.splits)
  have "resolve fs1 (record_path srv) = resolve fs2 (record_path srv)"
    by (rule resolve_cong) (use k(2) in \<open>auto simp: k(4)\<close>)
  then show ?thesis using k r by auto
qed


text \<open>What each operation of the record store does to the node that its path string
  names.\<close>

lemma read_phones_file:
  assumes "resolve fs (record_path srv) = Return k" "nodes fs k = Some (File b)"
    "utf8_decode b = Some t"
  shows "read_phones srv fs =
     (Return (response_line OK
              @ py_join CRLF (map py_strip (readlines [] (universal_newlines t))) @ TERMINATOR),
      fs\<lparr>trace := trace fs @ [Stat (record_path srv), OpenRead (record_path srv)]\<rparr>)"
proof -
  have "lookup fs (record_path srv) = Some (File b)" using assms(1,2) by (simp add: lookup_def)
  then show ?thesis
    using assms by (simp add: read_phones_def is_path_exists_eq open_read_def)
qed

lemma delete_file_file:
  assumes "resolve fs (record_path srv) = Return k" "nodes fs k = Some (File b)"
  shows "delete_file srv fs =
     (Return (response_line OK @ CRLF),
      fs\<lparr>trace := trace fs @ [Stat (record_path srv), Remove (record_path srv)],
         nodes := (nodes fs)(k := None)\<rparr>)"
proof -
  have "lookup fs (record_path srv) = Some (File b)" using assms(1,2) by (simp add: lookup_def)
  then show ?thesis
    using assms by (simp add: delete_file_def is_path_exists_eq os_remove_def)
qed

lemma write_phones_file:
  assumes "lookup fs (path_to_phonebook srv) \<noteq> None"
    "resolve fs (record_path srv) = Return k" "nodes fs k \<noteq> Some Dir"
    "nodes fs (butlast k) = Some Dir" "utf8_encode (py_join CRLF (phones srv)) = Some b"
  shows "write_phones srv fs =
     (Return (response_line OK @ CRLF),
      fs\<lparr>trace := trace fs @ [Stat (path_to_phonebook srv), OpenWrite (record_path srv)],
         nodes := (nodes fs)(k \<mapsto> File b)\<rparr>)"
proof -
  have "k \<noteq> []" using assms(3,4) by auto
  then show ?thesis
    using assms by (simp add: write_phones_def is_path_exists_eq open_write_def)
qed
section \<open>Requests the grammar accepts\<close>

lemma accepts_name:
  assumes "N \<noteq> []" "py_strip N = N" "13 \<notin> set N" "10 \<notin> set N" "length N \<le> ALLOWED_NAME_LENGTH"
  shows "is_valid_request srv (verb_value verb @ [32] @ N @ [32] @ PROTOCOL @ TERMINATOR)
     = (Return (), srv\<lparr>request_type := verb, name := N, phones := []\<rparr>)"
proof -
  let ?L = "verb_value verb @ [32] @ N @ [32] @ PROTOCOL"
  let ?raw = "verb_value verb @ [32] @ N @ [32] @ PROTOCOL @ TERMINATOR"
  have f: "find (\<lambda>v. startswith ?raw (verb_value v @ [32])) RequestVerbs_members = Some verb"
    by (rule find_verb)
  have cr: "13 \<notin> set ?L" using assms(3) verb_no_cr[of verb] by (simp add: PROTOCOL_def)
  have lf: "10 \<notin> set ?L" using assms(4) by (cases verb) (simp_all add: PROTOCOL_def)
  have e1: "endswith ?raw TERMINATOR" using endswith_appendI[of ?L TERMINATOR] by simp
  have e2: "\<not> endswith ?raw ([32] @ TERMINATOR)"
  proof
    assume "endswith ?raw ([32] @ TERMINATOR)"
    then have "endswith ((verb_value verb @ [32] @ N @ [32] @ butlast PROTOCOL) @ [0x30] @ TERMINATOR)
        ([32] @ TERMINATOR)" by (simp add: PROTOCOL_def)
    from endswith_last[OF this] show False by simp
  qed
  have cnt: "py_count ?raw TERMINATOR = 1" using py_count_one[OF cr] by simp
  have sp: "split_crlf [] ?raw = [?L, [], []]" using split_crlf_single[OF cr] by simp
  have ew: "endswith ?L ([32] @ PROTOCOL)"
    using endswith_appendI[of "verb_value verb @ [32] @ N" "[32] @ PROTOCOL"] by simp
  have "\<exists>c\<in>set N. \<not> is_space c" using strip_hd[OF assms(2,1)] assms(1) by (cases N) auto
  from re_search_name[OF verb_not_space this, of verb]
  have rs: "re_search name_pattern ?L = Some ([32] @ N @ [32])" .
  have bl: "butlast (tl ([32] @ N @ [32])) = N" by (simp add: butlast_append)
  have crlf: "\<not> list_ex (\<lambda>l. list_ex (\<lambda>el. el \<in> set l) [13, 10]) [?L]"
    using cr lf by simp
  have body: "check_request_body (srv\<lparr>request_type := verb\<rparr>) ?raw
      = (Return True, srv\<lparr>request_type := verb, name := N, phones := []\<rparr>)"
    unfolding check_request_body_def sp Let_def
    using ew rs bl crlf assms(5)
    by (simp add: check_phones_in_request_def del: append.simps)
  show ?thesis
    unfolding is_valid_request_def f Let_def
    using e1 e2 cnt body assms(2) by (simp del: append.simps)
qed

lemma find_write:
  "startswith raw (verb_value WRITE @ [32]) \<Longrightarrow>
   find (\<lambda>v. startswith raw (verb_value v @ [32])) RequestVerbs_members = Some WRITE"
  by (cases raw) (auto simp: startswith_def RequestVerbs_members_def)

lemma encode_ok:
  "utf8_encode (response_line OK @ CRLF) = Some (utf8 (response_line OK @ CRLF))"
  by (simp add: eval_defs)

lemma store_without_payload:
  assumes "raw = line @ TERMINATOR" "13 \<notin> set line"
    "startswith raw (verb_value WRITE @ [32])"
    "is_valid_request srv raw = (Return (), srv1)"
  shows "request_type srv1 = WRITE \<and> phones srv1 = []"
proof -
  have ne: "line \<noteq> []" using assms(1,3) by (auto simp: startswith_def TERMINATOR_def)
  have sp: "split_crlf [] raw = [line, [], []]"
    unfolding assms(1) using assms(2) by (rule split_crlf_single)
  from assms(4) obtain srv2 where
    b: "check_request_body (srv\<lparr>request_type := WRITE\<rparr>) raw = (Return True, srv2)"
    and s: "srv1 = srv2\<lparr>name := py_strip (name srv2)\<rparr>"
    unfolding is_valid_request_def find_write[OF assms(3)]
    by (auto simp: Let_def split: if_splits prod.splits result.splits)
  from b have "request_type srv2 = WRITE \<and> phones srv2 = []"
    unfolding check_request_body_def sp using ne
    by (auto simp: Let_def check_phones_in_request_def split: if_splits option.splits)
  then show ?thesis using s by simp
qed

section \<open>What an accepted request is\<close>

lemma py_strip_ends:
  "py_strip s = [] \<or> (\<not> is_space (hd (py_strip s)) \<and> \<not> is_space (last (py_strip s)))"
proof (cases "py_strip s = []")
  case True
  then show ?thesis by simp
next
  case False
  let ?d = "dropWhile is_space s"
  let ?e = "dropWhile is_space (rev ?d)"
  have e: "?e \<noteq> []" using False by (simp add: py_strip_def)
  have d: "?d \<noteq> []"
  proof
    assume "?d = []"
    then have "?e = []" by (simp only: rev.simps dropWhile.simps)
    with e show False by simp
  qed
  have l: "\<not> is_space (last (py_strip s))"
    using hd_dropWhile[OF e] e by (simp add: py_strip_def last_rev)
  obtain p where p: "rev ?d = p @ ?e" using takeWhile_dropWhile_id[of is_space "rev ?d"] by metis
  have "last ?e = last (rev ?d)" using e by (subst p) simp
  then have "hd (py_strip s) = hd ?d" using d e by (simp add: py_strip_def hd_rev last_rev)
  then have "\<not> is_space (hd (py_strip s))" using hd_dropWhile[OF d] by simp
  with l show ?thesis by simp
qed

lemma py_strip_fixed:
  assumes "s = [] \<or> (\<not> is_space (hd s) \<and> \<not> is_space (last s))"
  shows "py_strip s = s"
proof (cases "s = []")
  case True
  then show ?thesis by (simp add: py_strip_def)
next
  case False
  with assms have h: "\<not> is_space (hd s)" and l: "\<not> is_space (last s)" by auto
  have 1: "dropWhile is_space s = s" using h False by (cases s) auto
  have "dropWhile is_space (rev s) = rev s"
    using l False by (cases "rev s") (auto simp: last_rev[symmetric] simp del: last_rev)
  then show ?thesis by (simp add: py_strip_def 1)
qed

lemma py_strip_idem: "py_strip (py_strip s) = py_strip s"
  using py_strip_ends[of s] by (rule py_strip_fixed)

lemma set_py_strip: "set (py_strip s) \<subseteq> set s"
  unfolding py_strip_def by (auto dest!: set_dropWhileD)

lemma map_filter_fixed:
  assumes "xs = map f (filter P xs)"
  shows "list_all (\<lambda>x. P x \<and> f x = x) xs"
proof -
  have "length (filter P xs) = length xs" using assms by (metis length_map)
  then have all: "\<forall>x\<in>set xs. P x" using length_filter_less[of _ xs P] by fastforce
  then have "filter P xs = xs" by simp
  with assms have "map f xs = map id xs" by simp
  then have "\<forall>x\<in>set xs. f x = x" by (simp only: map_eq_conv) simp
  with all show ?thesis by (simp add: list_all_iff)
qed

text \<open>What a match of the name pattern looks like, wherever it is found.\<close>

lemma re_class_plus_sound:
  "r \<in> set (re_class_plus Q s) \<Longrightarrow> \<exists>p. s = p @ r \<and> p \<noteq> [] \<and> (\<forall>c\<in>set p. Q c)"
proof (induction s)
  case Nil
  then show ?case by simp
next
  case (Cons c s)
  then have c: "Q c" and r: "r \<in> set (re_class_plus Q s) \<or> r = s" by (auto split: if_splits)
  from r show ?case
  proof
    assume "r \<in> set (re_class_plus Q s)"
    with Cons.IH obtain p where "s = p @ r" "\<forall>c\<in>set p. Q c" by blast
    then have "c # s = (c # p) @ r \<and> c # p \<noteq> [] \<and> (\<forall>x\<in>set (c # p). Q x)" using c by simp
    then show ?thesis by blast
  next
    assume "r = s"
    then have "c # s = [c] @ r \<and> [c] \<noteq> [] \<and> (\<forall>x\<in>set [c]. Q x)" using c by simp
    then show ?thesis by blast
  qed
qed

lemma token_once_sound:
  assumes "r \<in> set (token_once s)"
  shows "\<exists>p. s = p @ r \<and> 2 \<le> length p \<and> \<not> is_space (hd p)"
proof -
  from assms obtain m where m: "m \<in> set (re_class_plus not_space s)" "r \<in> set (re_class_plus is_space m)"
    by (auto simp: token_once_def re_seq_def)
  from re_class_plus_sound[OF m(1)] obtain t where t: "s = t @ m" "t \<noteq> []" "\<forall>c\<in>set t. not_space c"
    by blast
  from re_class_plus_sound[OF m(2)] obtain w where w: "m = w @ r" "w \<noteq> []" by blast
  have "s = (t @ w) @ r" using t w by simp
  moreover have "2 \<le> length (t @ w)" using t(2) w(2) by (cases t; cases w) auto
  moreover have "\<not> is_space (hd (t @ w))" using t(2,3) by (cases t) (auto simp: not_space_def)
  ultimately show ?thesis by blast
qed

lemma tokens_sound:
  "r \<in> set (tokens s) \<Longrightarrow> \<exists>p. s = p @ r \<and> 2 \<le> length p \<and> \<not> is_space (hd p)"
proof (induction "length s" arbitrary: s r rule: less_induct)
  case less
  from less.prems obtain m where m: "m \<in> set (token_once s)"
    "r \<in> set (if length m < length s then tokens m @ [m] else [m])"
    by (subst (asm) re_group_plus.simps) auto
  from token_once_sound[OF m(1)] obtain p where p: "s = p @ m" "2 \<le> length p" "\<not> is_space (hd p)"
    by blast
  show ?case
  proof (cases "r = m")
    case True
    with p show ?thesis by blast
  next
    case False
    with m(2) have lt: "length m < length s" and r: "r \<in> set (tokens m)" by (auto split: if_splits)
    from less.hyps[OF lt r] obtain q where q: "m = q @ r" by blast
    have "s = (p @ q) @ r" using p q by simp
    moreover have "2 \<le> length (p @ q)" using p(2) by simp
    moreover have "\<not> is_space (hd (p @ q))" using p(2,3) by (cases p) auto
    ultimately show ?thesis by blast
  qed
qed

lemma name_pattern_sound:
  assumes "r \<in> set (name_pattern s)"
  shows "\<exists>w p. s = w @ p @ r \<and> w \<noteq> [] \<and> 2 \<le> length p \<and> \<not> is_space (hd p)"
proof -
  from assms obtain m where m: "m \<in> set (re_class_plus is_space s)" "r \<in> set (LA (tokens m))"
    by (auto simp: name_pattern_eq)
  from m(2) have "r \<in> set (tokens m)"
    by (auto simp: LA_def re_lookahead_def split: if_splits)
  from tokens_sound[OF this] obtain p where p: "m = p @ r" "2 \<le> length p" "\<not> is_space (hd p)"
    by blast
  from re_class_plus_sound[OF m(1)] obtain w where "s = w @ m" "w \<noteq> []" by blast
  with p show ?thesis by blast
qed

lemma re_search_sound:
  "re_search name_pattern s = Some g \<Longrightarrow>
   set g \<subseteq> set s \<and> (\<exists>c\<in>set (butlast (tl g)). \<not> is_space c)"
proof (induction s)
  case Nil
  then show ?case by (simp add: name_pattern_not_space)
next
  case (Cons c s)
  note prems = Cons.prems and IH = Cons.IH
  show ?case
  proof (cases "name_pattern (c # s) = []")
    case True
    with prems have "re_search name_pattern s = Some g" by simp
    from IH[OF this] show ?thesis by auto
  next
    case False
    then obtain r rs where rr: "name_pattern (c # s) = r # rs" by (cases "name_pattern (c # s)") auto
    then have "r \<in> set (name_pattern (c # s))" by simp
    from name_pattern_sound[OF this] obtain w p where
      wp: "c # s = w @ p @ r" "w \<noteq> []" "2 \<le> length p" "\<not> is_space (hd p)" by blast
    define t where "t = c # s"
    have "re_search name_pattern t = Some (take (length t - length r) t)"
      unfolding t_def using rr by simp
    then have "g = take (length t - length r) t" using prems by (simp add: t_def)
    moreover have "t = (w @ p) @ r" using wp(1) by (simp add: t_def)
    ultimately have g: "g = w @ p" by simp
    obtain w0 ws where w: "w = w0 # ws" using wp(2) by (cases w) auto
    obtain p0 p1 ps where p: "p = p0 # p1 # ps" using wp(3) by (cases p; cases "tl p") auto
    have "butlast (tl g) = ws @ butlast p" using g w p by (simp add: butlast_append)
    moreover have "p0 \<in> set (butlast p)" using p by simp
    moreover have "\<not> is_space p0" using wp(4) p by simp
    ultimately have "\<exists>c\<in>set (butlast (tl g)). \<not> is_space c" by auto
    moreover have "set g \<subseteq> set (c # s)" unfolding g wp(1) by auto
    ultimately show ?thesis by blast
  qed
qed

lemma py_strip_not_blank: "\<exists>c\<in>set s. \<not> is_space c \<Longrightarrow> py_strip s \<noteq> []"
proof -
  assume a: "\<exists>c\<in>set s. \<not> is_space c"
  let ?d = "dropWhile is_space s"
  have d: "?d \<noteq> []" using a by simp
  have "\<not> is_space (hd ?d)" using hd_dropWhile[OF d] .
  then have "\<exists>c\<in>set (rev ?d). \<not> is_space c" using d by (cases ?d) auto
  then have "dropWhile is_space (rev ?d) \<noteq> []" by simp
  then show ?thesis by (simp add: py_strip_def)
qed

lemma check_request_body_True:
  assumes "check_request_body srv raw = (Return True, srv2)"
  shows "\<exists>first rest g.
      filter (\<lambda>l. l \<noteq> []) (split_crlf [] raw) = first # rest
      \<and> \<not> list_ex (\<lambda>l. list_ex (\<lambda>el. el \<in> set l) [13, 10]) (first # rest)
      \<and> re_search name_pattern first = Some g
      \<and> length (butlast (tl g)) \<le> ALLOWED_NAME_LENGTH
      \<and> rest = map py_strip (filter (\<lambda>l. py_strip l \<noteq> []) rest)
      \<and> srv2 = srv\<lparr>name := butlast (tl g), phones := rest\<rparr>"
  using assms unfolding check_request_body_def Let_def check_phones_in_request_def
  by (auto split: list.splits if_splits option.splits)

lemma accepted_request_facts:
  assumes "is_valid_request srv raw = (Return (), srv1)"
  shows "name srv1 \<noteq> [] \<and> length (name srv1) \<le> ALLOWED_NAME_LENGTH
    \<and> py_strip (name srv1) = name srv1
    \<and> 13 \<notin> set (name srv1) \<and> 10 \<notin> set (name srv1)
    \<and> list_all good_line (phones srv1)
    \<and> startswith raw (verb_value (request_type srv1) @ [32])
    \<and> path_to_phonebook srv1 = path_to_phonebook srv"
proof -
  from assms obtain verb srv2 where
    f: "find (\<lambda>v. startswith raw (verb_value v @ [32])) RequestVerbs_members = Some verb"
    and b: "check_request_body (srv\<lparr>request_type := verb\<rparr>) raw = (Return True, srv2)"
    and s: "srv1 = srv2\<lparr>name := py_strip (name srv2)\<rparr>"
    unfolding is_valid_request_def
    by (auto simp: Let_def split: option.splits if_splits prod.splits result.splits)
  from check_request_body_True[OF b] obtain first rest g where
    p: "\<not> list_ex (\<lambda>l. list_ex (\<lambda>el. el \<in> set l) [13, 10]) (first # rest)"
    and g: "re_search name_pattern first = Some g"
    and len: "length (butlast (tl g)) \<le> ALLOWED_NAME_LENGTH"
    and rest: "rest = map py_strip (filter (\<lambda>l. py_strip l \<noteq> []) rest)"
    and s2: "srv2 = srv\<lparr>request_type := verb, name := butlast (tl g), phones := rest\<rparr>"
    by auto
  let ?n = "butlast (tl g)"
  have s1: "name srv1 = py_strip ?n" "phones srv1 = rest" "request_type srv1 = verb"
    "path_to_phonebook srv1 = path_to_phonebook srv"
    using s s2 by simp_all
  from re_search_sound[OF g] have sub: "set g \<subseteq> set first" and ns: "\<exists>c\<in>set ?n. \<not> is_space c"
    by auto
  have "set ?n \<subseteq> set g"
    by (metis in_set_butlastD list.set_sel(2) subsetI tl_Nil)
  then have "set (py_strip ?n) \<subseteq> set first" using set_py_strip[of ?n] sub by blast
  moreover have "13 \<notin> set first" "10 \<notin> set first" using p by auto
  ultimately have cl: "13 \<notin> set (py_strip ?n)" "10 \<notin> set (py_strip ?n)" by auto
  have gl: "list_all good_line rest"
  proof -
    from map_filter_fixed[OF rest]
    have st: "\<forall>l\<in>set rest. py_strip l \<noteq> [] \<and> py_strip l = l" by (simp only: list_all_iff)
    then have ne: "\<forall>l\<in>set rest. l \<noteq> []" by metis
    have "\<forall>l\<in>set rest. 13 \<notin> set l \<and> 10 \<notin> set l" using p by (auto simp: list_ex_iff)
    with st ne show ?thesis by (simp add: list_all_iff good_line_def)
  qed
  have "length (py_strip ?n) \<le> ALLOWED_NAME_LENGTH" using len length_py_strip[of ?n] by linarith
  then show ?thesis
    using py_strip_not_blank[OF ns] py_strip_idem[of ?n] cl gl find_verb_Some[OF f] s1
    by simp
qed

lemma split_crlf_set: "l \<in> set (split_crlf acc s) \<Longrightarrow> set l \<subseteq> set acc \<union> set s"
  by (induction acc s rule: split_crlf.induct) (auto split: if_splits)

lemma accepted_name_chars:
  assumes "is_valid_request srv raw = (Return (), srv1)"
  shows "set (name srv1) \<subseteq> set raw"
proof -
  from assms obtain verb srv2 where
    b: "check_request_body (srv\<lparr>request_type := verb\<rparr>) raw = (Return True, srv2)"
    and s: "srv1 = srv2\<lparr>name := py_strip (name srv2)\<rparr>"
    unfolding is_valid_request_def
    by (auto simp: Let_def split: option.splits if_splits prod.splits result.splits)
  from check_request_body_True[OF b] obtain first rest g where
    f: "filter (\<lambda>l. l \<noteq> []) (split_crlf [] raw) = first # rest"
    and g: "re_search name_pattern first = Some g"
    and s2: "srv2 = srv\<lparr>request_type := verb, name := butlast (tl g), phones := rest\<rparr>"
    by auto
  have "first \<in> set (filter (\<lambda>l. l \<noteq> []) (split_crlf [] raw))" using f by simp
  then have "first \<in> set (split_crlf [] raw)" by simp
  from split_crlf_set[OF this] have fr: "set first \<subseteq> set raw" by simp
  from re_search_sound[OF g] have sub: "set g \<subseteq> set first" by auto
  have "set (butlast (tl g)) \<subseteq> set g"
    by (metis in_set_butlastD list.set_sel(2) subsetI tl_Nil)
  then have "set (py_strip (butlast (tl g))) \<subseteq> set raw"
    using set_py_strip[of "butlast (tl g)"] sub fr by blast
  then show ?thesis using s s2 by simp
qed

lemma utf8_encode_iff: "(utf8_encode s \<noteq> None) = (\<forall>c\<in>set s. encode_cp c \<noteq> None)"
  by (induction s) (auto split: option.splits)

lemma accepted_name_encodable:
  assumes "utf8_decode data = Some raw" "is_valid_request srv raw = (Return (), srv1)"
  shows "utf8_encode (name srv1) \<noteq> None"
proof -
  have "utf8_encode raw \<noteq> None" using utf8_encode_decode[OF assms(1)] by simp
  then have "\<forall>c\<in>set raw. encode_cp c \<noteq> None" by (simp only: utf8_encode_iff)
  then have "\<forall>c\<in>set (name srv1). encode_cp c \<noteq> None"
    using accepted_name_chars[OF assms(2)] by blast
  then show ?thesis by (simp only: utf8_encode_iff)
qed

section \<open>Frame reader: the terminator is looked for in the last chunk only\<close>

text \<open>
  C5. The frame reader is to return as soon as the accumulated bytes end with CR LF CR LF,
  also when the terminator arrives split across two chunks. The loop of
  \<^verbatim>\<open>_receiving_data\<close> tests \<^verbatim>\<open>chunk.decode().endswith('\r\n\r\n')\<close>, the chunk just read and
  not the accumulated \<^verbatim>\<open>data\<close>: for a request whose last two bytes come in a chunk of
  their own, the accumulated bytes do end with the terminator, and the read still waits
  for more until the timeout cancels it.
\<close>

theorem receiving_data_split_terminator:
  "endswith
     (utf8 (verb_value GET @ ascii '' Ivan '' @ PROTOCOL @ CRLF) @ utf8 CRLF)
     (utf8 TERMINATOR)
   \<and> receiving_data []
       [utf8 (verb_value GET @ ascii '' Ivan '' @ PROTOCOL @ CRLF), utf8 CRLF]
     = Raise TimeoutError
   \<and> receiving_data []
       [utf8 (verb_value GET @ ascii '' Ivan '' @ PROTOCOL @ CRLF @ CRLF)]
     = Return (utf8 (verb_value GET @ ascii '' Ivan '' @ PROTOCOL @ TERMINATOR))"
  by (simp add: eval_defs)

section \<open>Verdict vocabulary: the query word passes for a verdict\<close>

text \<open>
  C4. A reply of the validation server that begins with neither the allowed nor the
  forbidden word is to end in the incorrect-request response. The loop of lines 224-229
  runs over all of \<^verbatim>\<open>ValidationWords\<close>, whose first member is the query word
  \<^verbatim>\<open>IS_ALLOWED\<close>; the log message of line 228 names the two verdict words only. A reply
  that begins with the query word and a space is therefore taken for a verdict and, not
  being the allowed one, is sent to the client as it is.
\<close>

theorem query_word_taken_for_verdict:
  "handle_echo example_server
     (authority_replying (validation_value IS_ALLOWED @ [32] @ PROTOCOL @ TERMINATOR))
     example_fs
     [utf8 (verb_value GET @ ascii '' Ivan '' @ PROTOCOL @ TERMINATOR)]
     new_writer
   = (Return (),
      example_server\<lparr>request_type := GET, name := ascii ''Ivan'', phones := []\<rparr>,
      example_fs,
      \<lparr>written = [utf8 (validation_value IS_ALLOWED @ [32] @ PROTOCOL @ TERMINATOR)],
       closed = True\<rparr>)"
  by (simp add: eval_defs)

section \<open>Name length: measured before the name is trimmed\<close>

text \<open>
  C7. A request whose name trims to 1..30 characters is to parse, whatever the amount of
  whitespace around the name. \<^verbatim>\<open>_check_request_body\<close> compares
  \<^verbatim>\<open>len(self.name)\<close> with 30 when \<^verbatim>\<open>self.name\<close> is still the match without its first and
  last character; \<^verbatim>\<open>_is_valid_request\<close> trims it afterwards (line 169). With 32 spaces
  between the verb and the one-letter name \<^verbatim>\<open>a\<close> the untrimmed name has 32 characters
  and the request is refused; with one space it is accepted.
\<close>

theorem padded_name_refused:
  "is_valid_request example_server
     (verb_value GET @ ascii ''                                a '' @ PROTOCOL @ TERMINATOR)
   = (Raise CanNotParseRequestError,
      example_server\<lparr>name := ascii ''                               a''\<rparr>)
   \<and> py_strip (ascii ''                               a'') = ascii ''a''
   \<and> is_valid_request example_server (verb_value GET @ ascii '' a '' @ PROTOCOL @ TERMINATOR)
     = (Return (), example_server\<lparr>name := ascii ''a''\<rparr>)"
  by (simp add: eval_defs)

section \<open>A name of whitespace only: the assertion escapes\<close>

text \<open>
  C2. Every connection is to end with exactly one response written and the transport
  closed, a grammar rejection giving the incorrect-request response. For a request whose
  name is whitespace only the pattern does not match, and
  \<^verbatim>\<open>assert name is not None\<close> (line 132) raises \<^verbatim>\<open>AssertionError\<close> before
  \<^verbatim>\<open>name.group()\<close> could raise the \<^verbatim>\<open>AttributeError\<close> that line 142 waits for (its
  comment: a name that is a sequence of spaces). \<^verbatim>\<open>handle_echo\<close> does not catch it either:
  nothing is written and the transport is not closed.
\<close>

theorem blank_name_escapes:
  "handle_echo example_server (authority_replying verdict_allowed) example_fs
     [utf8 (verb_value GET @ ascii ''  '' @ PROTOCOL @ TERMINATOR)] new_writer
   = (Raise AssertionError, example_server, example_fs, new_writer)"
  by (simp add: eval_defs)

section \<open>Grammar rejection\<close>

lemma encode_incorrect:
  "utf8_encode (response_line INCORRECT @ CRLF) = Some (utf8 (response_line INCORRECT @ CRLF))"
  by (simp add: eval_defs)

lemma handle_echo_parse_error:
  assumes "receiving_data [] reader = Return data" "utf8_decode data = Some raw"
    "is_valid_request srv raw = (Raise CanNotParseRequestError, srv1)"
  shows "handle_echo srv auth fs reader w =
    (Return (), srv1, fs,
     w\<lparr>written := written w @ [utf8 (response_line INCORRECT @ CRLF)], closed := True\<rparr>)"
  using assms
  by (simp add: handle_echo_def handle_echo_try_def caught_def response_if_exception_def
      write_and_close_def encode_incorrect)

lemma rejects_two_terminators:
  assumes "raw = a @ TERMINATOR @ b @ TERMINATOR @ c"
  shows "\<exists>srv1. is_valid_request srv raw = (Raise CanNotParseRequestError, srv1)"
proof -
  have "2 \<le> py_count raw TERMINATOR"
    unfolding assms by (rule py_count_ge2) (simp add: TERMINATOR_def)
  then have "py_count raw TERMINATOR \<noteq> 1" by simp
  then show ?thesis
    by (simp add: is_valid_request_def Let_def split: option.split)
qed

lemma check_request_body_first_line:
  assumes "startswith raw (verb_value verb @ [32])"
    "\<not> endswith (hd (split_crlf [] raw)) PROTOCOL"
  shows "check_request_body srv raw = (Return False, srv)"
proof -
  from startswith_verb_hd[OF assms(1)] obtain c cs where raw: "raw = c # cs" "c \<noteq> 13" by blast
  from split_crlf_first[OF raw(2), of cs] obtain p ps where
    sp: "split_crlf [] raw = (c # p) # ps" unfolding raw(1) by blast
  have "\<not> endswith (c # p) ([32] @ PROTOCOL)"
    using assms(2) endswith_append[of "c # p" "[32]" PROTOCOL] unfolding sp by auto
  then show ?thesis
    by (simp add: check_request_body_def sp)
qed

lemma rejects_first_line:
  assumes "\<not> endswith (hd (split_crlf [] raw)) PROTOCOL"
  shows "\<exists>srv1. is_valid_request srv raw = (Raise CanNotParseRequestError, srv1)"
proof (cases "find (\<lambda>verb. startswith raw (verb_value verb @ [32])) RequestVerbs_members")
  case None
  then show ?thesis by (simp add: is_valid_request_def)
next
  case (Some verb)
  from find_verb_Some[OF Some] have "startswith raw (verb_value verb @ [32])" .
  from check_request_body_first_line[OF this assms]
  show ?thesis
    by (simp add: is_valid_request_def Some Let_def)
qed

lemma check_request_body_long_name:
  assumes "raw = verb_value verb @ [32] @ N @ [32] @ PROTOCOL @ CRLF @ rest"
    "13 \<notin> set N" "ALLOWED_NAME_LENGTH < length (py_strip N)"
  shows "\<exists>srv1. check_request_body srv raw = (Return False, srv1)"
proof -
  let ?L = "verb_value verb @ [32] @ N @ [32] @ PROTOCOL"
  have cr: "13 \<notin> set ?L" using assms(2) verb_no_cr[of verb] by (simp add: PROTOCOL_def)
  have sp: "split_crlf [] raw = ?L # split_crlf [] rest"
    using split_crlf_line[OF cr, of "[]" rest] unfolding assms(1) by simp
  have ne: "?L \<noteq> []" by simp
  have ew: "endswith ?L ([32] @ PROTOCOL)"
    using endswith_appendI[of "verb_value verb @ [32] @ N" "[32] @ PROTOCOL"] by simp
  have "py_strip N \<noteq> []" using assms(3) by auto
  from re_search_name[OF verb_not_space py_strip_nonempty[OF this], of verb]
  have rs: "re_search name_pattern ?L = Some ([32] @ N @ [32])" .
  have len: "\<not> length N \<le> ALLOWED_NAME_LENGTH"
    using assms(3) length_py_strip[of N] by linarith
  have bl: "butlast (tl ([32] @ N @ [32])) = N" by (simp add: butlast_append)
  show ?thesis
    unfolding check_request_body_def sp Let_def
    using ne ew rs len bl
    by (simp del: append.simps split: if_splits)
qed

lemma rejects_long_name:
  assumes "raw = verb_value verb @ [32] @ N @ [32] @ PROTOCOL @ CRLF @ rest"
    "13 \<notin> set N" "ALLOWED_NAME_LENGTH < length (py_strip N)"
  shows "\<exists>srv1. is_valid_request srv raw = (Raise CanNotParseRequestError, srv1)"
proof -
  have f: "find (\<lambda>v. startswith raw (verb_value v @ [32])) RequestVerbs_members = Some verb"
    unfolding assms(1) by (rule find_verb)
  from check_request_body_long_name[OF assms, of "srv\<lparr>request_type := verb\<rparr>"]
  obtain srv1 where "check_request_body (srv\<lparr>request_type := verb\<rparr>) raw = (Return False, srv1)"
    by blast
  then show ?thesis
    by (simp add: is_valid_request_def f Let_def)
qed

text \<open>
  C6, as stated, fails for the third of its cases. A text that ends with CR LF CR LF
  CR LF contains the terminator at two places, two characters apart, but \<^verbatim>\<open>str.count\<close>
  counts occurrences that do not overlap and finds one. Such a request is accepted and,
  once allowed, carried out: the Store below creates the record file.
\<close>

theorem grammar_rejection_counterexample:
  "(verb_value WRITE @ ascii '' Ivan '' @ PROTOCOL @ CRLF @ ascii ''+7123'') @ TERMINATOR @ CRLF
     = verb_value WRITE @ ascii '' Ivan '' @ PROTOCOL @ CRLF @ ascii ''+7123'' @ CRLF @ TERMINATOR
   \<and> py_count
        (verb_value WRITE @ ascii '' Ivan '' @ PROTOCOL @ CRLF @ ascii ''+7123'' @ CRLF @ TERMINATOR)
        TERMINATOR = 1
   \<and> handle_echo example_server (authority_replying verdict_allowed) example_fs_ready
        [utf8 (verb_value WRITE @ ascii '' Ivan '' @ PROTOCOL @ CRLF @ ascii ''+7123'' @ CRLF
               @ TERMINATOR)]
        new_writer
      = (Return (),
         example_server\<lparr>request_type := WRITE, name := ascii ''Ivan'', phones := [ascii ''+7123'']\<rparr>,
         example_fs_ready
           \<lparr>trace := [Stat (ascii ''/srv/rksok_phonebook''),
                       OpenWrite (ascii ''/srv/rksok_phonebook/Ivan'')],
            nodes := (nodes example_fs_ready)
                       ([ascii ''srv'', ascii ''rksok_phonebook'', ascii ''Ivan'']
                          \<mapsto> File (utf8 (ascii ''+7123'')))\<rparr>,
         \<lparr>written = [utf8 (response_line OK @ CRLF)], closed = True\<rparr>)"
  by (simp add: eval_defs)

text \<open>
  C6, amended. A request is refused with the incorrect-request response, and the disk is
  left as it was (no node changed and no call made: the file system of the result is the
  one given), when its first line (the text before the first CR LF) does not end with the
  version token; or when its name, the text between the verb and the version token of the
  first line trimmed of whitespace, has more than 30 characters; or when the terminator
  occurs in it at two places that do not overlap, which is when \<^verbatim>\<open>str.count\<close> finds it
  more than once. The request is the decoded text of the frame the reader returned.
\<close>

theorem grammar_rejection:
  assumes "receiving_data [] reader = Return data" and "utf8_decode data = Some raw"
    and "\<not> endswith (hd (split_crlf [] raw)) PROTOCOL
         \<or> (\<exists>verb N rest. raw = verb_value verb @ [32] @ N @ [32] @ PROTOCOL @ CRLF @ rest
               \<and> 13 \<notin> set N \<and> ALLOWED_NAME_LENGTH < length (py_strip N))
         \<or> (\<exists>a b c. raw = a @ TERMINATOR @ b @ TERMINATOR @ c)"
  shows "\<exists>srv1. handle_echo srv auth fs reader w =
           (Return (), srv1, fs,
            w\<lparr>written := written w @ [utf8 (response_line INCORRECT @ CRLF)], closed := True\<rparr>)"
proof -
  have "\<exists>srv1. is_valid_request srv raw = (Raise CanNotParseRequestError, srv1)"
    using assms(3) rejects_first_line rejects_long_name rejects_two_terminators by blast
  then obtain srv1 where "is_valid_request srv raw = (Raise CanNotParseRequestError, srv1)"
    by blast
  from handle_echo_parse_error[OF assms(1,2) this] show ?thesis by blast
qed

theorem grammar_rejection_witness:
  "(\<exists>srv1. handle_echo example_server (authority_replying verdict_allowed) example_fs_ready
       [utf8 (verb_value GET @ ascii '' Ivan'' @ TERMINATOR)] new_writer
     = (Return (), srv1, example_fs_ready,
        \<lparr>written = [utf8 (response_line INCORRECT @ CRLF)], closed = True\<rparr>))
   \<and> (\<exists>srv1. handle_echo example_server (authority_replying verdict_allowed) example_fs_ready
       [utf8 (verb_value WRITE @ [32] @ ascii ''abcdefghijklmnopqrstuvwxyz01234'' @ [32] @ PROTOCOL
                @ CRLF @ ascii ''+7123'' @ TERMINATOR)] new_writer
     = (Return (), srv1, example_fs_ready,
        \<lparr>written = [utf8 (response_line INCORRECT @ CRLF)], closed = True\<rparr>))
   \<and> (\<exists>srv1. handle_echo example_server (authority_replying verdict_allowed) example_fs_ready
       [utf8 (verb_value GET @ ascii '' Ivan '' @ PROTOCOL @ TERMINATOR
                @ verb_value GET @ ascii '' Ivan '' @ PROTOCOL @ TERMINATOR)] new_writer
     = (Return (), srv1, example_fs_ready,
        \<lparr>written = [utf8 (response_line INCORRECT @ CRLF)], closed = True\<rparr>))"
proof -
  let ?A = "verb_value GET @ ascii '' Ivan'' @ TERMINATOR"
  let ?N = "ascii ''abcdefghijklmnopqrstuvwxyz01234''"
  let ?B = "verb_value WRITE @ [32] @ ?N @ [32] @ PROTOCOL @ CRLF @ ascii ''+7123'' @ TERMINATOR"
  let ?C = "verb_value GET @ ascii '' Ivan '' @ PROTOCOL @ TERMINATOR
            @ verb_value GET @ ascii '' Ivan '' @ PROTOCOL @ TERMINATOR"
  have A: "receiving_data [] [utf8 ?A] = Return (utf8 ?A)" "utf8_decode (utf8 ?A) = Some ?A"
    "\<not> endswith (hd (split_crlf [] ?A)) PROTOCOL"
    by (simp_all add: eval_defs)
  have B: "receiving_data [] [utf8 ?B] = Return (utf8 ?B)" "utf8_decode (utf8 ?B) = Some ?B"
    "13 \<notin> set ?N" "ALLOWED_NAME_LENGTH < length (py_strip ?N)"
    by (simp_all add: eval_defs)
  have C: "receiving_data [] [utf8 ?C] = Return (utf8 ?C)" "utf8_decode (utf8 ?C) = Some ?C"
    by (simp_all add: eval_defs)
  have C3: "\<exists>a b c. ?C = a @ TERMINATOR @ b @ TERMINATOR @ c"
    by (rule exI[of _ "verb_value GET @ ascii '' Ivan '' @ PROTOCOL"],
        rule exI[of _ "verb_value GET @ ascii '' Ivan '' @ PROTOCOL"], rule exI[of _ "[]"]) simp
  have B3: "\<exists>verb N rest. ?B = verb_value verb @ [32] @ N @ [32] @ PROTOCOL @ CRLF @ rest
               \<and> 13 \<notin> set N \<and> ALLOWED_NAME_LENGTH < length (py_strip N)"
    using B(3,4) by blast
  show ?thesis
    using grammar_rejection[OF A(1,2), of example_server "authority_replying verdict_allowed"
        example_fs_ready new_writer] A(3)
      grammar_rejection[OF B(1,2), of example_server "authority_replying verdict_allowed"
        example_fs_ready new_writer] B3
      grammar_rejection[OF C(1,2), of example_server "authority_replying verdict_allowed"
        example_fs_ready new_writer] C3
    by (simp add: new_writer_def)
qed

section \<open>A forbidden verdict is relayed and the store is not touched\<close>

lemma forbidden_not_allowed:
  "startswith v (validation_value FORBIDDEN @ [32]) \<Longrightarrow>
   \<not> startswith v (validation_value ALLOWED @ [32])"
  by (cases v) (auto simp: startswith_def)

text \<open>
  C3. When the request parses and the validation server's reply begins with the forbidden
  word and a space, the bytes of that reply are what the client is sent, the transport
  is closed, and the record store is not used: the file system of the result is the one
  given, trace included, so no \<^verbatim>\<open>stat\<close>, \<^verbatim>\<open>open\<close>, \<^verbatim>\<open>mkdir\<close> or \<^verbatim>\<open>remove\<close> was made.
\<close>

theorem forbidden_verdict_relayed:
  assumes "receiving_data [] reader = Return data" and "utf8_decode data = Some message"
    and "is_valid_request srv message = (Return (), srv1)"
    and "tcp_echo_client auth message = Return reply"
    and "utf8_decode reply = Some verdict"
    and "startswith verdict (validation_value FORBIDDEN @ [32])"
  shows "handle_echo srv auth fs reader w =
           (Return (), srv1, fs, w\<lparr>written := written w @ [reply], closed := True\<rparr>)"
proof -
  have enc: "utf8_encode verdict = Some reply"
    using assms(5) by (rule utf8_encode_decode)
  have voc: "list_ex (\<lambda>verb. startswith verdict (validation_value verb @ [32]))
               ValidationWords_members"
    using assms(6) by (simp add: ValidationWords_members_def)
  have "handle_echo_try srv auth fs reader w =
          (Return (), srv1, fs, w\<lparr>written := written w @ [reply], closed := True\<rparr>)"
    using assms(1-5) voc forbidden_not_allowed[OF assms(6)] enc
    by (simp add: handle_echo_try_def write_and_close_def)
  then show ?thesis by (simp add: handle_echo_def)
qed

theorem forbidden_verdict_relayed_witness:
  "handle_echo example_server
     (authority_replying (validation_value FORBIDDEN @ [32] @ PROTOCOL @ TERMINATOR))
     example_fs_ready
     [utf8 (verb_value DELETE @ ascii '' Ivan '' @ PROTOCOL @ TERMINATOR)]
     new_writer
   = (Return (),
      example_server\<lparr>request_type := DELETE, name := ascii ''Ivan'', phones := []\<rparr>,
      example_fs_ready,
      \<lparr>written = [utf8 (validation_value FORBIDDEN @ [32] @ PROTOCOL @ TERMINATOR)],
       closed = True\<rparr>)"
proof -
  let ?raw = "verb_value DELETE @ ascii '' Ivan '' @ PROTOCOL @ TERMINATOR"
  let ?v = "validation_value FORBIDDEN @ [32] @ PROTOCOL @ TERMINATOR"
  have 1: "receiving_data [] [utf8 ?raw] = Return (utf8 ?raw)" by (simp add: eval_defs)
  have 2: "utf8_decode (utf8 ?raw) = Some ?raw" by (simp add: eval_defs)
  have 3: "is_valid_request example_server ?raw =
     (Return (), example_server\<lparr>request_type := DELETE, name := ascii ''Ivan'', phones := []\<rparr>)"
    by (simp add: eval_defs)
  have 4: "tcp_echo_client (authority_replying ?v) ?raw = Return (utf8 ?v)" by (simp add: eval_defs)
  have 5: "utf8_decode (utf8 ?v) = Some ?v" by (simp add: eval_defs)
  have 6: "startswith ?v (validation_value FORBIDDEN @ [32])" by (simp add: eval_defs)
  show ?thesis
    using forbidden_verdict_relayed[OF 1 2 3 4 5 6, of example_fs_ready new_writer]
    by (simp add: new_writer_def)
qed

section \<open>Delete\<close>

text \<open>
  C8, as stated, fails: for every name, Delete is to answer NotFound when there is no
  record of that name. The name \<^verbatim>\<open>.\<close> passes the grammar; its record path is the phonebook
  directory itself, so \<^verbatim>\<open>os.stat\<close> succeeds although no record file is there, and
  \<^verbatim>\<open>os.remove\<close> of a directory raises an \<^verbatim>\<open>OSError\<close>, which neither \<^verbatim>\<open>_delete_file\<close> nor
  \<^verbatim>\<open>handle_echo\<close> catches: no response is written.
\<close>

theorem delete_file_outcomes_counterexample:
  "lookup example_fs_ready (record_path (example_server\<lparr>name := ascii ''.''\<rparr>)) = Some Dir
   \<and> delete_file (example_server\<lparr>name := ascii ''.''\<rparr>) example_fs_ready
      = (Raise OSError,
         example_fs_ready\<lparr>trace := [Stat (ascii ''/srv/rksok_phonebook/.''),
                                     Remove (ascii ''/srv/rksok_phonebook/.'')]\<rparr>)
   \<and> handle_echo example_server (authority_replying verdict_allowed) example_fs_ready
        [utf8 (verb_value DELETE @ ascii '' . '' @ PROTOCOL @ TERMINATOR)] new_writer
      = (Raise OSError,
         example_server\<lparr>request_type := DELETE, name := ascii ''.'', phones := []\<rparr>,
         example_fs_ready\<lparr>trace := [Stat (ascii ''/srv/rksok_phonebook/.''),
                                     Remove (ascii ''/srv/rksok_phonebook/.'')]\<rparr>,
         new_writer)"
  by (simp add: eval_defs)

text \<open>
  C8, amended. For every name and every disk: when nothing exists at the record path,
  Delete answers NotFound and changes nothing but the trace; when a regular file exists
  there, Delete removes that file and nothing else, answers OK, and a Retrieve of the same
  name run next answers NotFound. (A record path that names a directory is the case left
  out.)
\<close>

theorem delete_file_outcomes:
  "(lookup fs (record_path srv) = None \<longrightarrow>
      delete_file srv fs =
        (Return (response_line NOT_FOUND @ CRLF),
         fs\<lparr>trace := trace fs @ [Stat (record_path srv)]\<rparr>))
   \<and> (\<forall>k b. resolve fs (record_path srv) = Return k \<and> nodes fs k = Some (File b) \<longrightarrow>
        (\<exists>fs1 fs2.
           delete_file srv fs = (Return (response_line OK @ CRLF), fs1)
           \<and> nodes fs1 = (nodes fs)(k := None)
           \<and> lookup fs1 (record_path srv) = None
           \<and> read_phones srv fs1 = (Return (response_line NOT_FOUND @ CRLF), fs2)))"
proof (intro conjI impI allI)
  assume "lookup fs (record_path srv) = None"
  then show "delete_file srv fs =
        (Return (response_line NOT_FOUND @ CRLF),
         fs\<lparr>trace := trace fs @ [Stat (record_path srv)]\<rparr>)"
    by (simp add: delete_file_def is_path_exists_eq)
next
  fix k b
  let ?p = "record_path srv"
  assume a: "resolve fs ?p = Return k \<and> nodes fs k = Some (File b)"
  then have lk: "lookup fs ?p = Some (File b)" by (simp add: lookup_def)
  define fs1 where "fs1 = fs\<lparr>trace := trace fs @ [Stat ?p, Remove ?p], nodes := (nodes fs)(k := None)\<rparr>"
  have d: "delete_file srv fs = (Return (response_line OK @ CRLF), fs1)"
    using a lk by (simp add: delete_file_def is_path_exists_eq os_remove_def fs1_def)
  have "resolve fs1 ?p = resolve fs ?p"
    by (rule resolve_cong) (use a in \<open>auto simp: fs1_def\<close>)
  then have r: "resolve fs1 ?p = Return k" using a by simp
  have n: "nodes fs1 = (nodes fs)(k := None)" by (simp add: fs1_def)
  have l1: "lookup fs1 ?p = None" using r n by (simp add: lookup_def)
  have "read_phones srv fs1 = (Return (response_line NOT_FOUND @ CRLF), fs1\<lparr>trace := trace fs1 @ [Stat ?p]\<rparr>)"
    using l1 by (simp add: read_phones_def is_path_exists_eq)
  with d n l1 show "\<exists>fs1 fs2.
           delete_file srv fs = (Return (response_line OK @ CRLF), fs1)
           \<and> nodes fs1 = (nodes fs)(k := None)
           \<and> lookup fs1 (record_path srv) = None
           \<and> read_phones srv fs1 = (Return (response_line NOT_FOUND @ CRLF), fs2)"
    by blast
qed

theorem delete_file_outcomes_witness:
  "delete_file (example_server\<lparr>name := ascii ''Ivan''\<rparr>) example_fs_ready
     = (Return (response_line NOT_FOUND @ CRLF),
        example_fs_ready\<lparr>trace := [Stat (ascii ''/srv/rksok_phonebook/Ivan'')]\<rparr>)
   \<and> (\<exists>fs1 fs2.
        delete_file (example_server\<lparr>name := ascii ''Ivan''\<rparr>) example_fs_ivan
          = (Return (response_line OK @ CRLF), fs1)
        \<and> nodes fs1 [ascii ''srv'', ascii ''rksok_phonebook'', ascii ''Ivan''] = None
        \<and> read_phones (example_server\<lparr>name := ascii ''Ivan''\<rparr>) fs1
          = (Return (response_line NOT_FOUND @ CRLF), fs2))"
proof -
  let ?srv = "example_server\<lparr>name := ascii ''Ivan''\<rparr>"
  let ?k = "[ascii ''srv'', ascii ''rksok_phonebook'', ascii ''Ivan'']"
  have 1: "lookup example_fs_ready (record_path ?srv) = None" by (simp add: eval_defs)
  have 2: "resolve example_fs_ivan (record_path ?srv) = Return ?k
      \<and> nodes example_fs_ivan ?k = Some (File (utf8 (ascii ''+7123'')))"
    by (simp add: eval_defs)
  have p: "record_path ?srv = ascii ''/srv/rksok_phonebook/Ivan''" by (simp add: eval_defs)
  have t: "trace example_fs_ready = []" by (simp add: example_fs_ready_def)
  from delete_file_outcomes[of example_fs_ready ?srv] 1
  have a: "delete_file ?srv example_fs_ready
     = (Return (response_line NOT_FOUND @ CRLF),
        example_fs_ready\<lparr>trace := [Stat (ascii ''/srv/rksok_phonebook/Ivan'')]\<rparr>)"
    by (simp add: p t)
  from delete_file_outcomes[of example_fs_ivan ?srv] 2
  obtain fs1 fs2 where b: "delete_file ?srv example_fs_ivan = (Return (response_line OK @ CRLF), fs1)"
    "nodes fs1 = (nodes example_fs_ivan)(?k := None)"
    "read_phones ?srv fs1 = (Return (response_line NOT_FOUND @ CRLF), fs2)"
    by blast
  from b(2) have "nodes fs1 ?k = None" by simp
  with a b show ?thesis by blast
qed

section \<open>Store, then Retrieve\<close>

text \<open>
  C1, as stated, fails in three ways, each on lines equal to their trimmed form and a name
  of at most 30 characters without control characters. An empty last line is lost (the
  file ends with CR LF, and \<^verbatim>\<open>readlines\<close> gives no line after it); a line with a CR inside
  comes back as two lines (universal newlines read the CR as a line end); and for the name
  \<^verbatim>\<open>..\<close> the record path is a directory, so that \<^verbatim>\<open>open\<close> raises an \<^verbatim>\<open>OSError\<close>.
\<close>

theorem store_then_retrieve_counterexample:
  "py_strip (ascii ''1'') = ascii ''1'' \<and> py_strip [] = []
   \<and> fst (write_phones (example_server\<lparr>name := ascii ''Ivan'', phones := [ascii ''1'', []]\<rparr>)
            example_fs)
       = Return (response_line OK @ CRLF)
   \<and> fst (read_phones (example_server\<lparr>name := ascii ''Ivan'', phones := [ascii ''1'', []]\<rparr>)
            (snd (write_phones
                    (example_server\<lparr>name := ascii ''Ivan'', phones := [ascii ''1'', []]\<rparr>)
                    example_fs)))
       = Return (response_line OK @ py_join CRLF [ascii ''1''] @ TERMINATOR)
   \<and> response_line OK @ py_join CRLF [ascii ''1''] @ TERMINATOR
       \<noteq> response_line OK @ py_join CRLF [ascii ''1'', []] @ TERMINATOR
   \<and> py_strip [0x61, 13, 0x62] = [0x61, 13, 0x62]
   \<and> fst (read_phones (example_server\<lparr>name := ascii ''Ivan'', phones := [[0x61, 13, 0x62]]\<rparr>)
            (snd (write_phones
                    (example_server\<lparr>name := ascii ''Ivan'', phones := [[0x61, 13, 0x62]]\<rparr>)
                    example_fs)))
       = Return (response_line OK @ py_join CRLF [[0x61], [0x62]] @ TERMINATOR)
   \<and> response_line OK @ py_join CRLF [[0x61], [0x62]] @ TERMINATOR
       \<noteq> response_line OK @ py_join CRLF [[0x61, 13, 0x62]] @ TERMINATOR
   \<and> fst (write_phones (example_server\<lparr>name := ascii ''..'', phones := [ascii ''1'']\<rparr>)
            example_fs_ready)
       = Raise OSError"
  by (simp add: eval_defs)

text \<open>
  C1, amended. Let the name have 1 to 30 characters, and let every line of the list be
  equal to its trimmed form and free of CR and LF, the last one not empty when there
  are several. Whenever Store returns (no error of the storage layer), it returns the OK
  response, and a Retrieve of the same name run next returns the OK response carrying
  exactly these lines in their order. And Store does return when the disk is ready for
  the record (\<open>store_ready\<close>): the name and the lines are text that UTF-8 encodes, the
  name has no slash and no NUL and is not \<^verbatim>\<open>.\<close> or \<^verbatim>\<open>..\<close>; the phonebook's path is an
  absolute path of one or more file names proper (no NUL, no empty, \<^verbatim>\<open>.\<close> or \<^verbatim>\<open>..\<close>
  component, which is what \<^verbatim>\<open>Path.resolve()\<close> gives), each of at most 255 bytes, with at
  most 3974 bytes in all; the directories above it exist, and the phonebook is a
  directory or absent; and nothing or a regular file is at the record's path. The
  statement holds for names of any length where it does not ask for \<open>store_ready\<close>, and
  \<open>store_ready\<close> asks of the characters of the name only that none is NUL or a slash,
  which a name of non-control characters without a slash meets. The disk is one of
  directories and regular files that the server may read and write, as the file system
  above describes it.
\<close>

theorem store_then_retrieve:
  assumes "list_all trimmed_line (phones srv)"
    and "length (phones srv) \<le> 1 \<or> last (phones srv) \<noteq> []"
  shows "(\<forall>r fs1. write_phones srv fs = (Return r, fs1) \<longrightarrow>
            r = response_line OK @ CRLF
            \<and> (\<exists>fs2. read_phones srv fs1 =
                  (Return (response_line OK @ py_join CRLF (phones srv) @ TERMINATOR), fs2)))
    \<and> (\<forall>rc. store_ready rc srv fs \<longrightarrow>
          (\<exists>fs1 fs2.
             write_phones srv fs = (Return (response_line OK @ CRLF), fs1)
             \<and> read_phones srv fs1 =
                 (Return (response_line OK @ py_join CRLF (phones srv) @ TERMINATOR), fs2)))"
proof -
  have main: "r = response_line OK @ CRLF
      \<and> (\<exists>fs2. read_phones srv fs1 =
            (Return (response_line OK @ py_join CRLF (phones srv) @ TERMINATOR), fs2))"
    if w: "write_phones srv fs = (Return r, fs1)" for r fs1
  proof -
    from write_phones_Return[OF w] obtain k b where
      r: "r = response_line OK @ CRLF" and
      k: "resolve fs1 (record_path srv) = Return k" "nodes fs1 k = Some (File b)"
         "utf8_encode (py_join CRLF (phones srv)) = Some b"
      by blast
    have dec: "utf8_decode b = Some (py_join CRLF (phones srv))"
      using k(3) by (rule utf8_decode_encode)
    have "read_phones srv fs1 =
       (Return (response_line OK @ py_join CRLF (phones srv) @ TERMINATOR),
        fs1\<lparr>trace := trace fs1 @ [Stat (record_path srv), OpenRead (record_path srv)]\<rparr>)"
      using read_phones_file[OF k(1,2) dec] lines_round_trip_trimmed[OF assms] by simp
    with r show ?thesis by blast
  qed
  have B: "\<exists>fs1 fs2.
             write_phones srv fs = (Return (response_line OK @ CRLF), fs1)
             \<and> read_phones srv fs1 =
                 (Return (response_line OK @ py_join CRLF (phones srv) @ TERMINATOR), fs2)"
    if "store_ready rc srv fs" for rc
  proof -
    from write_phones_completes[OF that] obtain fs1 where
      w: "write_phones srv fs = (Return (response_line OK @ CRLF), fs1)" by blast
    from main[OF w] w show ?thesis by blast
  qed
  show ?thesis using main B by blast
qed

theorem store_then_retrieve_witness:
  "\<exists>fs1 fs2.
      write_phones
        (example_server\<lparr>name := ascii ''Ivan'', phones := [ascii ''+7123'', [], ascii ''+7 456'']\<rparr>)
        example_fs
      = (Return (response_line OK @ CRLF), fs1)
    \<and> read_phones
        (example_server\<lparr>name := ascii ''Ivan'', phones := [ascii ''+7123'', [], ascii ''+7 456'']\<rparr>)
        fs1
      = (Return (response_line OK @ ascii ''+7123'' @ CRLF @ CRLF @ ascii ''+7 456'' @ TERMINATOR),
         fs2)"
proof -
  let ?srv = "example_server\<lparr>name := ascii ''Ivan'',
                phones := [ascii ''+7123'', [], ascii ''+7 456'']\<rparr>"
  have 1: "list_all trimmed_line (phones ?srv)" by (simp add: eval_defs)
  have 2: "length (phones ?srv) \<le> 1 \<or> last (phones ?srv) \<noteq> []" by (simp add: eval_defs)
  have 3: "store_ready [ascii ''srv'', ascii ''rksok_phonebook''] ?srv example_fs"
    by (simp add: store_ready_def phonebook_ready_def proper_name_def plain_name_def abs_path_def
        eval_defs)
  from store_then_retrieve[OF 1 2, of example_fs] 3 show ?thesis by auto
qed

section \<open>A Store without payload lines\<close>

text \<open>
  C10, as stated, fails: not every Store request without payload lines ends, once
  approved, with a record file written and the OK response. The name \<^verbatim>\<open>..\<close> passes the
  grammar, its record path is a directory, and \<^verbatim>\<open>open\<close> raises an \<^verbatim>\<open>OSError\<close> that nothing
  catches: no response is written.
\<close>

theorem empty_payload_stored_counterexample:
  "handle_echo example_server (authority_replying verdict_allowed) example_fs_ready
     [utf8 (verb_value WRITE @ ascii '' .. '' @ PROTOCOL @ TERMINATOR)] new_writer
   = (Raise OSError,
      example_server\<lparr>request_type := WRITE, name := ascii ''..'', phones := []\<rparr>,
      example_fs_ready\<lparr>trace := [Stat (ascii ''/srv/rksok_phonebook''),
                                  OpenWrite (ascii ''/srv/rksok_phonebook/..'')]\<rparr>,
      new_writer)"
  by (simp add: eval_defs)

text \<open>
  C10, amended. The payload check accepts the empty list. For every Store request that is
  one line and the terminator and that the grammar accepts, the phone list is empty and
  the name has 1 to 30 characters; once the validation server allows it, whenever
  \<^verbatim>\<open>_write_phones\<close> returns (no error of the storage layer) the connection ends with the
  OK response written and the transport closed, and the record's path names a file
  without content. And \<^verbatim>\<open>_write_phones\<close> does return when the name has no slash and no
  NUL and is not \<^verbatim>\<open>.\<close> or \<^verbatim>\<open>..\<close>; the phonebook's path is an absolute path of one or
  more file names proper (no NUL, no empty, \<^verbatim>\<open>.\<close> or \<^verbatim>\<open>..\<close> component, which is what
  \<^verbatim>\<open>Path.resolve()\<close> gives), each of at most 255 bytes, with at most 3974 bytes in all;
  the directories above it exist, and the phonebook is a directory or absent
  (\<open>phonebook_ready\<close>); and nothing or a regular file is at the record's path. The disk
  is one of directories and regular files that the server may read and write, as the
  file system above describes it.
\<close>

theorem empty_payload_stored:
  assumes "raw = line @ TERMINATOR" and "13 \<notin> set line"
    and "startswith raw (verb_value WRITE @ [32])"
    and "receiving_data [] reader = Return data" and "utf8_decode data = Some raw"
    and "is_valid_request srv raw = (Return (), srv1)"
    and "tcp_echo_client auth raw = Return reply" and "utf8_decode reply = Some verdict"
    and "startswith verdict (validation_value ALLOWED @ [32])"
  shows "check_phones_in_request srv0 [] = (True, srv0\<lparr>phones := []\<rparr>)
    \<and> request_type srv1 = WRITE \<and> phones srv1 = []
    \<and> name srv1 \<noteq> [] \<and> length (name srv1) \<le> ALLOWED_NAME_LENGTH
    \<and> (\<forall>r fs1. write_phones srv1 fs = (Return r, fs1) \<longrightarrow>
          handle_echo srv auth fs reader w =
            (Return (), srv1, fs1,
             w\<lparr>written := written w @ [utf8 (response_line OK @ CRLF)], closed := True\<rparr>)
          \<and> lookup fs1 (record_path srv1) = Some (File []))
    \<and> (\<forall>rc. phonebook_ready rc srv fs
            \<and> 0x2F \<notin> set (name srv1) \<and> 0 \<notin> set (name srv1)
            \<and> name srv1 \<noteq> [0x2E] \<and> name srv1 \<noteq> [0x2E, 0x2E]
            \<and> nodes fs (rc @ [utf8 (name srv1)]) \<noteq> Some Dir \<longrightarrow>
          (\<exists>fs1. handle_echo srv auth fs reader w =
                  (Return (), srv1, fs1,
                   w\<lparr>written := written w @ [utf8 (response_line OK @ CRLF)], closed := True\<rparr>)
                \<and> lookup fs1 (record_path srv1) = Some (File [])))"
proof -
  from store_without_payload[OF assms(1,2,3,6)]
  have t: "request_type srv1 = WRITE" and p: "phones srv1 = []" by auto
  from accepted_request_facts[OF assms(6)]
  have n: "name srv1 \<noteq> []" "length (name srv1) \<le> ALLOWED_NAME_LENGTH"
    and pb: "path_to_phonebook srv1 = path_to_phonebook srv"
    by simp_all
  have e: "utf8_encode (name srv1) \<noteq> None" using assms(5,6) by (rule accepted_name_encodable)
  have voc: "list_ex (\<lambda>verb. startswith verdict (validation_value verb @ [32]))
               ValidationWords_members"
    using assms(9) by (simp add: ValidationWords_members_def)
  have main: "handle_echo srv auth fs reader w =
            (Return (), srv1, fs1,
             w\<lparr>written := written w @ [utf8 (response_line OK @ CRLF)], closed := True\<rparr>)
          \<and> lookup fs1 (record_path srv1) = Some (File [])"
    if wp: "write_phones srv1 fs = (Return r, fs1)" for r fs1
  proof -
    from write_phones_Return[OF wp] obtain k b where
      r: "r = response_line OK @ CRLF" and
      k: "resolve fs1 (record_path srv1) = Return k" "nodes fs1 k = Some (File b)"
         "utf8_encode (py_join CRLF (phones srv1)) = Some b"
      by blast
    have b: "b = []" using k(3) p by simp
    have lk: "lookup fs1 (record_path srv1) = Some (File [])" using k b by (simp add: lookup_def)
    have "handle_echo_try srv auth fs reader w =
          (Return (), srv1, fs1,
           w\<lparr>written := written w @ [utf8 (response_line OK @ CRLF)], closed := True\<rparr>)"
      using assms(4-9) wp voc t r
      by (simp add: handle_echo_try_def write_and_close_def encode_ok)
    then have "handle_echo srv auth fs reader w =
          (Return (), srv1, fs1,
           w\<lparr>written := written w @ [utf8 (response_line OK @ CRLF)], closed := True\<rparr>)"
      by (simp add: handle_echo_def)
    with lk show ?thesis by simp
  qed
  have B: "\<exists>fs1. handle_echo srv auth fs reader w =
                  (Return (), srv1, fs1,
                   w\<lparr>written := written w @ [utf8 (response_line OK @ CRLF)], closed := True\<rparr>)
                \<and> lookup fs1 (record_path srv1) = Some (File [])"
    if h: "phonebook_ready rc srv fs
            \<and> 0x2F \<notin> set (name srv1) \<and> 0 \<notin> set (name srv1)
            \<and> name srv1 \<noteq> [0x2E] \<and> name srv1 \<noteq> [0x2E, 0x2E]
            \<and> nodes fs (rc @ [utf8 (name srv1)]) \<noteq> Some Dir" for rc
  proof -
    have "phonebook_ready rc srv1 fs" using h pb by (simp add: phonebook_ready_def)
    moreover have "proper_name (name srv1)" using h n e by (simp add: proper_name_def)
    ultimately have "store_ready rc srv1 fs" using h p by (simp add: store_ready_def)
    from write_phones_completes[OF this] obtain fs1 where
      "write_phones srv1 fs = (Return (response_line OK @ CRLF), fs1)" by blast
    from main[OF this] show ?thesis by blast
  qed
  have A: "check_phones_in_request srv0 [] = (True, srv0\<lparr>phones := []\<rparr>)"
    by (simp add: check_phones_in_request_def)
  show ?thesis using A t p n main B by blast
qed

theorem empty_payload_stored_witness:
  "\<exists>fs1. handle_echo example_server (authority_replying verdict_allowed) example_fs
       [utf8 (verb_value WRITE @ ascii '' Ivan '' @ PROTOCOL @ TERMINATOR)] new_writer
     = (Return (),
        example_server\<lparr>request_type := WRITE, name := ascii ''Ivan'', phones := []\<rparr>,
        fs1, \<lparr>written = [utf8 (response_line OK @ CRLF)], closed = True\<rparr>)
     \<and> lookup fs1 (ascii ''/srv/rksok_phonebook/Ivan'') = Some (File [])"
proof -
  let ?line = "verb_value WRITE @ ascii '' Ivan '' @ PROTOCOL"
  let ?raw = "verb_value WRITE @ ascii '' Ivan '' @ PROTOCOL @ TERMINATOR"
  let ?srv1 = "example_server\<lparr>request_type := WRITE, name := ascii ''Ivan'', phones := []\<rparr>"
  have 1: "?raw = ?line @ TERMINATOR" by simp
  have 2: "13 \<notin> set ?line" by (simp add: eval_defs)
  have 3: "startswith ?raw (verb_value WRITE @ [32])" by (simp add: eval_defs)
  have 4: "receiving_data [] [utf8 ?raw] = Return (utf8 ?raw)" by (simp add: eval_defs)
  have 5: "utf8_decode (utf8 ?raw) = Some ?raw" by (simp add: eval_defs)
  have 6: "is_valid_request example_server ?raw = (Return (), ?srv1)" by (simp add: eval_defs)
  have 7: "tcp_echo_client (authority_replying verdict_allowed) ?raw = Return (utf8 verdict_allowed)"
    by (simp add: eval_defs)
  have 8: "utf8_decode (utf8 verdict_allowed) = Some verdict_allowed" by (simp add: eval_defs)
  have 9: "startswith verdict_allowed (validation_value ALLOWED @ [32])" by (simp add: eval_defs)
  have 10: "phonebook_ready [ascii ''srv'', ascii ''rksok_phonebook''] example_server example_fs
      \<and> 0x2F \<notin> set (name ?srv1) \<and> 0 \<notin> set (name ?srv1)
      \<and> name ?srv1 \<noteq> [0x2E] \<and> name ?srv1 \<noteq> [0x2E, 0x2E]
      \<and> nodes example_fs ([ascii ''srv'', ascii ''rksok_phonebook''] @ [utf8 (name ?srv1)])
          \<noteq> Some Dir"
    by (simp add: phonebook_ready_def plain_name_def abs_path_def eval_defs)
  have rp: "record_path ?srv1 = ascii ''/srv/rksok_phonebook/Ivan''" by (simp add: eval_defs)
  show ?thesis
    using empty_payload_stored[OF 1 2 3 4 5 6 7 8 9, of example_server example_fs new_writer] 10 rp
    by (auto simp: new_writer_def)
qed

section \<open>Names are paths\<close>

text \<open>
  C9. The grammar accepts every name of at most 30 characters that is not empty, has no
  whitespace at its ends and no CR or LF in it, a slash and dots included. Every
  operation of the record store acts on the node that the text made of the phonebook's
  path, a slash and the name resolves to, wherever on the disk that is: Retrieve answers
  with the lines of the file there, Delete removes the file there, and Store, when the
  phonebook exists, creates or overwrites the file there. And so there are accepted and
  authorized requests whose file lies outside the phonebook directory: with the name
  \<^verbatim>\<open>../x\<close>, Store creates \<^verbatim>\<open>/srv/x\<close>, beside \<^verbatim>\<open>/srv/rksok_phonebook\<close>, Retrieve reads it and
  Delete removes it.
\<close>

theorem names_reach_outside_the_phonebook:
  "(\<forall>srv verb N. N \<noteq> [] \<and> py_strip N = N \<and> 13 \<notin> set N \<and> 10 \<notin> set N
        \<and> length N \<le> ALLOWED_NAME_LENGTH \<longrightarrow>
      is_valid_request srv (verb_value verb @ [32] @ N @ [32] @ PROTOCOL @ TERMINATOR)
        = (Return (), srv\<lparr>request_type := verb, name := N, phones := []\<rparr>))
   \<and> (\<forall>srv fs k b t.
        resolve fs (path_to_phonebook srv @ ascii ''/'' @ name srv) = Return k
        \<and> nodes fs k = Some (File b) \<and> utf8_decode b = Some t \<longrightarrow>
        fst (read_phones srv fs)
          = Return (response_line OK
                    @ py_join CRLF (map py_strip (readlines [] (universal_newlines t)))
                    @ TERMINATOR))
   \<and> (\<forall>srv fs k b.
        resolve fs (path_to_phonebook srv @ ascii ''/'' @ name srv) = Return k
        \<and> nodes fs k = Some (File b) \<longrightarrow>
        fst (delete_file srv fs) = Return (response_line OK @ CRLF)
        \<and> nodes (snd (delete_file srv fs)) = (nodes fs)(k := None))
   \<and> (\<forall>srv fs k b.
        resolve fs (path_to_phonebook srv @ ascii ''/'' @ name srv) = Return k
        \<and> nodes fs k \<noteq> Some Dir \<and> nodes fs (butlast k) = Some Dir
        \<and> lookup fs (path_to_phonebook srv) \<noteq> None
        \<and> utf8_encode (py_join CRLF (phones srv)) = Some b \<longrightarrow>
        fst (write_phones srv fs) = Return (response_line OK @ CRLF)
        \<and> nodes (snd (write_phones srv fs)) = (nodes fs)(k \<mapsto> File b))
   \<and> resolve example_fs_ready (ascii ''/srv/rksok_phonebook'')
       = Return [ascii ''srv'', ascii ''rksok_phonebook'']
   \<and> resolve example_fs_ready (ascii ''/srv/rksok_phonebook/../x'')
       = Return [ascii ''srv'', ascii ''x'']
   \<and> \<not> inside_directory example_fs_ready (ascii ''/srv/rksok_phonebook'')
         (ascii ''/srv/rksok_phonebook/../x'')
   \<and> nodes example_fs_ready [ascii ''srv'', ascii ''x''] = None
   \<and> handle_echo example_server (authority_replying verdict_allowed) example_fs_ready
        [utf8 (verb_value WRITE @ ascii '' ../x '' @ PROTOCOL @ CRLF @ ascii ''1'' @ TERMINATOR)]
        new_writer
      = (Return (),
         example_server\<lparr>request_type := WRITE, name := ascii ''../x'', phones := [ascii ''1'']\<rparr>,
         example_fs_ready
           \<lparr>trace := [Stat (ascii ''/srv/rksok_phonebook''),
                       OpenWrite (ascii ''/srv/rksok_phonebook/../x'')],
            nodes := (nodes example_fs_ready)
                       ([ascii ''srv'', ascii ''x''] \<mapsto> File (utf8 (ascii ''1'')))\<rparr>,
         \<lparr>written = [utf8 (response_line OK @ CRLF)], closed = True\<rparr>)
   \<and> handle_echo example_server (authority_replying verdict_allowed) example_fs_beside
        [utf8 (verb_value GET @ ascii '' ../x '' @ PROTOCOL @ TERMINATOR)] new_writer
      = (Return (),
         example_server\<lparr>request_type := GET, name := ascii ''../x'', phones := []\<rparr>,
         example_fs_beside
           \<lparr>trace := [Stat (ascii ''/srv/rksok_phonebook/../x''),
                       OpenRead (ascii ''/srv/rksok_phonebook/../x'')]\<rparr>,
         \<lparr>written = [utf8 (response_line OK @ ascii ''1'' @ TERMINATOR)], closed = True\<rparr>)
   \<and> handle_echo example_server (authority_replying verdict_allowed) example_fs_beside
        [utf8 (verb_value DELETE @ ascii '' ../x '' @ PROTOCOL @ TERMINATOR)] new_writer
      = (Return (),
         example_server\<lparr>request_type := DELETE, name := ascii ''../x'', phones := []\<rparr>,
         example_fs_beside
           \<lparr>trace := [Stat (ascii ''/srv/rksok_phonebook/../x''),
                       Remove (ascii ''/srv/rksok_phonebook/../x'')],
            nodes := (nodes example_fs_beside)([ascii ''srv'', ascii ''x''] := None)\<rparr>,
         \<lparr>written = [utf8 (response_line OK @ CRLF)], closed = True\<rparr>)"
proof -
  have rp: "path_to_phonebook srv @ ascii ''/'' @ name srv = record_path srv" for srv
    by (simp add: record_path_def ascii_def)
  have G: "is_valid_request srv (verb_value verb @ [32] @ N @ [32] @ PROTOCOL @ TERMINATOR)
        = (Return (), srv\<lparr>request_type := verb, name := N, phones := []\<rparr>)"
    if "N \<noteq> [] \<and> py_strip N = N \<and> 13 \<notin> set N \<and> 10 \<notin> set N
        \<and> length N \<le> ALLOWED_NAME_LENGTH" for srv verb N
    using that accepts_name by blast
  have R: "fst (read_phones srv fs)
          = Return (response_line OK
                    @ py_join CRLF (map py_strip (readlines [] (universal_newlines t)))
                    @ TERMINATOR)"
    if "resolve fs (path_to_phonebook srv @ ascii ''/'' @ name srv) = Return k
        \<and> nodes fs k = Some (File b) \<and> utf8_decode b = Some t" for srv fs k b t
    using that read_phones_file[of fs srv k b t] by (simp add: rp)
  have D: "fst (delete_file srv fs) = Return (response_line OK @ CRLF)
        \<and> nodes (snd (delete_file srv fs)) = (nodes fs)(k := None)"
    if "resolve fs (path_to_phonebook srv @ ascii ''/'' @ name srv) = Return k
        \<and> nodes fs k = Some (File b)" for srv fs k b
    using that delete_file_file[of fs srv k b] by (simp add: rp)
  have W: "fst (write_phones srv fs) = Return (response_line OK @ CRLF)
        \<and> nodes (snd (write_phones srv fs)) = (nodes fs)(k \<mapsto> File b)"
    if "resolve fs (path_to_phonebook srv @ ascii ''/'' @ name srv) = Return k
        \<and> nodes fs k \<noteq> Some Dir \<and> nodes fs (butlast k) = Some Dir
        \<and> lookup fs (path_to_phonebook srv) \<noteq> None
        \<and> utf8_encode (py_join CRLF (phones srv)) = Some b" for srv fs k b
    using that write_phones_file[of fs srv k b] by (simp add: rp)
  have E1: "resolve example_fs_ready (ascii ''/srv/rksok_phonebook'')
       = Return [ascii ''srv'', ascii ''rksok_phonebook'']"
    by (simp add: eval_defs)
  have E2: "resolve example_fs_ready (ascii ''/srv/rksok_phonebook/../x'')
       = Return [ascii ''srv'', ascii ''x'']"
    by (simp add: eval_defs)
  have E3: "\<not> inside_directory example_fs_ready (ascii ''/srv/rksok_phonebook'')
         (ascii ''/srv/rksok_phonebook/../x'')"
    by (simp add: eval_defs)
  have E4: "nodes example_fs_ready [ascii ''srv'', ascii ''x''] = None"
    by (simp add: eval_defs)
  have H1: "handle_echo example_server (authority_replying verdict_allowed) example_fs_ready
        [utf8 (verb_value WRITE @ ascii '' ../x '' @ PROTOCOL @ CRLF @ ascii ''1'' @ TERMINATOR)]
        new_writer
      = (Return (),
         example_server\<lparr>request_type := WRITE, name := ascii ''../x'', phones := [ascii ''1'']\<rparr>,
         example_fs_ready
           \<lparr>trace := [Stat (ascii ''/srv/rksok_phonebook''),
                       OpenWrite (ascii ''/srv/rksok_phonebook/../x'')],
            nodes := (nodes example_fs_ready)
                       ([ascii ''srv'', ascii ''x''] \<mapsto> File (utf8 (ascii ''1'')))\<rparr>,
         \<lparr>written = [utf8 (response_line OK @ CRLF)], closed = True\<rparr>)"
    by (simp add: eval_defs)
  have H2: "handle_echo example_server (authority_replying verdict_allowed) example_fs_beside
        [utf8 (verb_value GET @ ascii '' ../x '' @ PROTOCOL @ TERMINATOR)] new_writer
      = (Return (),
         example_server\<lparr>request_type := GET, name := ascii ''../x'', phones := []\<rparr>,
         example_fs_beside
           \<lparr>trace := [Stat (ascii ''/srv/rksok_phonebook/../x''),
                       OpenRead (ascii ''/srv/rksok_phonebook/../x'')]\<rparr>,
         \<lparr>written = [utf8 (response_line OK @ ascii ''1'' @ TERMINATOR)], closed = True\<rparr>)"
    by (simp add: eval_defs)
  have H3: "handle_echo example_server (authority_replying verdict_allowed) example_fs_beside
        [utf8 (verb_value DELETE @ ascii '' ../x '' @ PROTOCOL @ TERMINATOR)] new_writer
      = (Return (),
         example_server\<lparr>request_type := DELETE, name := ascii ''../x'', phones := []\<rparr>,
         example_fs_beside
           \<lparr>trace := [Stat (ascii ''/srv/rksok_phonebook/../x''),
                       Remove (ascii ''/srv/rksok_phonebook/../x'')],
            nodes := (nodes example_fs_beside)([ascii ''srv'', ascii ''x''] := None)\<rparr>,
         \<lparr>written = [utf8 (response_line OK @ CRLF)], closed = True\<rparr>)"
    by (simp add: eval_defs)
  show ?thesis
    apply (intro conjI allI impI)
    subgoal for srv verb N by (rule G)
    subgoal for srv fs k b t by (rule R)
    subgoal for srv fs k b using D[of fs srv k b] by simp
    subgoal for srv fs k b using D[of fs srv k b] by simp
    subgoal for srv fs k b using W[of fs srv k b] by simp
    subgoal for srv fs k b using W[of fs srv k b] by simp
    subgoal by (rule E1)
    subgoal by (rule E2)
    subgoal using E3 by simp
    subgoal by (rule E4)
    subgoal by (rule H1)
    subgoal by (rule H2)
    subgoal by (rule H3)
    done
qed

theorem names_reach_outside_the_phonebook_witness:
  "is_valid_request example_server (verb_value DELETE @ ascii '' ../x '' @ PROTOCOL @ TERMINATOR)
     = (Return (), example_server\<lparr>request_type := DELETE, name := ascii ''../x'', phones := []\<rparr>)
   \<and> fst (read_phones (example_server\<lparr>name := ascii ''../x''\<rparr>) example_fs_beside)
     = Return (response_line OK @ ascii ''1'' @ TERMINATOR)
   \<and> fst (delete_file (example_server\<lparr>name := ascii ''../x''\<rparr>) example_fs_beside)
     = Return (response_line OK @ CRLF)
   \<and> nodes (snd (delete_file (example_server\<lparr>name := ascii ''../x''\<rparr>) example_fs_beside))
        [ascii ''srv'', ascii ''x''] = None
   \<and> fst (write_phones (example_server\<lparr>name := ascii ''../x'', phones := [ascii ''2'']\<rparr>)
            example_fs_beside)
     = Return (response_line OK @ CRLF)
   \<and> nodes (snd (write_phones (example_server\<lparr>name := ascii ''../x'', phones := [ascii ''2'']\<rparr>)
                   example_fs_beside))
        [ascii ''srv'', ascii ''x''] = Some (File (utf8 (ascii ''2'')))"
proof -
  let ?srv = "example_server\<lparr>name := ascii ''../x''\<rparr>"
  let ?srw = "example_server\<lparr>name := ascii ''../x'', phones := [ascii ''2'']\<rparr>"
  let ?k = "[ascii ''srv'', ascii ''x'']"
  have g: "ascii ''../x'' \<noteq> [] \<and> py_strip (ascii ''../x'') = ascii ''../x''
      \<and> 13 \<notin> set (ascii ''../x'') \<and> 10 \<notin> set (ascii ''../x'')
      \<and> length (ascii ''../x'') \<le> ALLOWED_NAME_LENGTH"
    by (simp add: eval_defs)
  have r: "resolve example_fs_beside (path_to_phonebook ?srv @ ascii ''/'' @ name ?srv) = Return ?k
      \<and> nodes example_fs_beside ?k = Some (File (utf8 (ascii ''1'')))
      \<and> utf8_decode (utf8 (ascii ''1'')) = Some (ascii ''1'')"
    by (simp add: eval_defs)
  have w: "resolve example_fs_beside (path_to_phonebook ?srw @ ascii ''/'' @ name ?srw) = Return ?k
      \<and> nodes example_fs_beside ?k \<noteq> Some Dir
      \<and> nodes example_fs_beside (butlast ?k) = Some Dir
      \<and> lookup example_fs_beside (path_to_phonebook ?srw) \<noteq> None
      \<and> utf8_encode (py_join CRLF (phones ?srw)) = Some (utf8 (ascii ''2''))"
    by (simp add: eval_defs)
  note T = names_reach_outside_the_phonebook
  from T g have 1: "is_valid_request example_server
          (verb_value DELETE @ [32] @ ascii ''../x'' @ [32] @ PROTOCOL @ TERMINATOR)
     = (Return (), example_server\<lparr>request_type := DELETE, name := ascii ''../x'', phones := []\<rparr>)"
    by blast
  from T r have 2: "fst (read_phones ?srv example_fs_beside)
     = Return (response_line OK
               @ py_join CRLF (map py_strip (readlines [] (universal_newlines (ascii ''1''))))
               @ TERMINATOR)"
    by blast
  from T r have 3: "fst (delete_file ?srv example_fs_beside) = Return (response_line OK @ CRLF)
      \<and> nodes (snd (delete_file ?srv example_fs_beside)) = (nodes example_fs_beside)(?k := None)"
    by blast
  from T w have 4: "fst (write_phones ?srw example_fs_beside) = Return (response_line OK @ CRLF)
      \<and> nodes (snd (write_phones ?srw example_fs_beside))
          = (nodes example_fs_beside)(?k \<mapsto> File (utf8 (ascii ''2'')))"
    by blast
  have 5: "py_join CRLF (map py_strip (readlines [] (universal_newlines (ascii ''1''))))
      = ascii ''1''"
    by (simp add: eval_defs)
  show ?thesis using 1 2 3 4 5 by (simp add: ascii_def)
qed
section \<open>Further properties of the connection handler\<close>

lemma write_and_close_cases:
  "write_and_close response w = (r, w1) \<Longrightarrow>
   (case r of Return u \<Rightarrow> (\<exists>b. w1 = w\<lparr>written := written w @ [b], closed := True\<rparr>)
            | Raise e \<Rightarrow> w1 = w \<and> \<not> caught e)"
  by (auto simp: write_and_close_def caught_def split: option.splits)

lemma handle_echo_try_writer:
  assumes "handle_echo_try srv auth fs reader w = (r, srv1, fs1, w1)"
  shows "case r of Return u \<Rightarrow> (\<exists>b. w1 = w\<lparr>written := written w @ [b], closed := True\<rparr>)
                 | Raise e \<Rightarrow> w1 = w"
  using assms unfolding handle_echo_try_def
  by (auto split: result.splits option.splits prod.splits if_splits
           dest!: write_and_close_cases)

text \<open>
  How a connection can end. Either \<^verbatim>\<open>handle_echo\<close> returns, and then exactly one response
  was written to the transport and the transport was closed; or an exception leaves it,
  one that its \<^verbatim>\<open>except\<close> clause does not name, and then nothing was written and the
  transport was not closed.
\<close>

theorem handle_echo_outcomes:
  "case handle_echo srv auth fs reader w of
     (Return u, srv1, fs1, w1) \<Rightarrow> (\<exists>b. w1 = w\<lparr>written := written w @ [b], closed := True\<rparr>)
   | (Raise e, srv1, fs1, w1) \<Rightarrow> w1 = w \<and> \<not> caught e"
proof -
  obtain r srv1 fs1 w1 where t: "handle_echo_try srv auth fs reader w = (r, srv1, fs1, w1)"
    by (cases "handle_echo_try srv auth fs reader w") auto
  from handle_echo_try_writer[OF t] show ?thesis
    unfolding handle_echo_def t
    by (cases r) (auto simp: response_if_exception_def write_and_close_def encode_incorrect)
qed

lemma utf8_encode_append:
  "utf8_encode a = Some x \<Longrightarrow> utf8_encode b = Some y \<Longrightarrow> utf8_encode (a @ b) = Some (x @ y)"
  by (induction a arbitrary: x) (auto split: option.splits)

lemma encode_envelope:
  assumes "utf8_decode data = Some message"
  shows "\<exists>sent. utf8_encode (validation_value IS_ALLOWED @ [32] @ PROTOCOL @ CRLF @ message) = Some sent"
proof -
  define lit where "lit = validation_value IS_ALLOWED @ [32] @ PROTOCOL @ CRLF"
  have m: "utf8_encode message = Some data" using assms by (rule utf8_encode_decode)
  have "\<exists>h. utf8_encode lit = Some h" by (simp add: lit_def eval_defs)
  then obtain h where "utf8_encode lit = Some h" by blast
  from utf8_encode_append[OF this m] show ?thesis by (auto simp: lit_def)
qed

text \<open>
  The validation server cannot be asked. When the connection to it is refused, or it is
  made and no frame arrives before the timeout, an accepted request is answered with the
  incorrect-request response and the disk is not touched.
\<close>

theorem authority_unreachable:
  assumes "receiving_data [] reader = Return data" and "utf8_decode data = Some message"
    and "is_valid_request srv message = (Return (), srv1)"
    and "auth = ConnectionRefused
         \<or> (\<exists>reply. auth = Established reply
                \<and> (\<forall>sent. receiving_data [] (reply sent) = Raise TimeoutError))"
  shows "handle_echo srv auth fs reader w =
           (Return (), srv1, fs,
            w\<lparr>written := written w @ [utf8 (response_line INCORRECT @ CRLF)], closed := True\<rparr>)"
proof -
  from encode_envelope[OF assms(2)] obtain sent where
    s: "utf8_encode (validation_value IS_ALLOWED @ [32] @ PROTOCOL @ CRLF @ message) = Some sent"
    by blast
  have "tcp_echo_client auth message = Raise CannotFetchDataFromValidationServer"
    using assms(4) s by (auto simp: tcp_echo_client_def)
  then have "handle_echo_try srv auth fs reader w =
      (Raise CannotFetchDataFromValidationServer, srv1, fs, w)"
    using assms(1-3) by (simp add: handle_echo_try_def)
  then show ?thesis
    by (simp add: handle_echo_def caught_def response_if_exception_def write_and_close_def
        encode_incorrect)
qed

theorem authority_unreachable_witness:
  "handle_echo example_server ConnectionRefused example_fs_ivan
     [utf8 (verb_value GET @ ascii '' Ivan '' @ PROTOCOL @ TERMINATOR)] new_writer
   = (Return (), example_server\<lparr>name := ascii ''Ivan''\<rparr>, example_fs_ivan,
      \<lparr>written = [utf8 (response_line INCORRECT @ CRLF)], closed = True\<rparr>)
   \<and> handle_echo example_server (Established (\<lambda>sent. [])) example_fs_ivan
     [utf8 (verb_value GET @ ascii '' Ivan '' @ PROTOCOL @ TERMINATOR)] new_writer
   = (Return (), example_server\<lparr>name := ascii ''Ivan''\<rparr>, example_fs_ivan,
      \<lparr>written = [utf8 (response_line INCORRECT @ CRLF)], closed = True\<rparr>)"
proof -
  let ?raw = "verb_value GET @ ascii '' Ivan '' @ PROTOCOL @ TERMINATOR"
  have 1: "receiving_data [] [utf8 ?raw] = Return (utf8 ?raw)" by (simp add: eval_defs)
  have 2: "utf8_decode (utf8 ?raw) = Some ?raw" by (simp add: eval_defs)
  have 3: "is_valid_request example_server ?raw = (Return (), example_server\<lparr>name := ascii ''Ivan''\<rparr>)"
    by (simp add: eval_defs)
  have 4: "Established (\<lambda>sent. []) = ConnectionRefused
         \<or> (\<exists>reply. Established (\<lambda>sent. []) = Established reply
                \<and> (\<forall>sent. receiving_data [] (reply sent) = Raise TimeoutError))"
    by simp
  show ?thesis
    using authority_unreachable[OF 1 2 3, of ConnectionRefused example_fs_ivan new_writer]
      authority_unreachable[OF 1 2 3 4, of example_fs_ivan new_writer]
    by (simp add: new_writer_def)
qed

text \<open>
  The example of the specification: \<^verbatim>\<open>Ivan\<close> is stored with the line \<^verbatim>\<open>+7123\<close> and then
  retrieved, both requests being allowed.
\<close>

theorem example_scenario:
  "\<exists>srv1 fs1.
     handle_echo example_server (authority_replying verdict_allowed) example_fs
       [utf8 (verb_value WRITE @ ascii '' Ivan '' @ PROTOCOL @ CRLF @ ascii ''+7123'' @ TERMINATOR)]
       new_writer
     = (Return (), srv1, fs1, \<lparr>written = [utf8 (response_line OK @ CRLF)], closed = True\<rparr>)
     \<and> (\<exists>srv2 fs2.
          handle_echo srv1 (authority_replying verdict_allowed) fs1
            [utf8 (verb_value GET @ ascii '' Ivan '' @ PROTOCOL @ TERMINATOR)] new_writer
          = (Return (), srv2, fs2,
             \<lparr>written = [utf8 (response_line OK @ ascii ''+7123'' @ TERMINATOR)],
              closed = True\<rparr>))"
  by (simp add: eval_defs)

lemma re_search_no_space: "\<forall>c\<in>set s. \<not> is_space c \<Longrightarrow> re_search name_pattern s = None"
proof (induction s)
  case Nil
  then show ?case by (simp add: name_pattern_not_space)
next
  case (Cons c s)
  then have "name_pattern (c # s) = []" by (intro name_pattern_not_space) simp
  with Cons show ?case by simp
qed

lemma name_pattern_blank:
  assumes "W \<noteq> []" "\<forall>c\<in>set W. is_space c"
  shows "name_pattern (W @ PROTOCOL) = []"
proof -
  have hd: "W @ PROTOCOL \<noteq> []" "is_space (hd (W @ PROTOCOL))" using assms by (cases W; simp)+
  have d: "dropWhile is_space (W @ PROTOCOL) = PROTOCOL"
    using assms(2) by (simp add: PROTOCOL_def is_space_def)
  from re_class_plus_shape[of "W @ PROTOCOL" is_space, OF hd] obtain ys where
    ys: "re_class_plus is_space (W @ PROTOCOL) = PROTOCOL # ys"
        "\<forall>y\<in>set ys. y \<noteq> [] \<and> is_space (hd y)"
    unfolding d by blast
  have "concat (map (\<lambda>r. LA (tokens r)) ys) = []"
    using ys(2) by (intro concat_map_Nil) (simp add: tokens_Nil LA_def)
  then show ?thesis
    by (simp add: name_pattern_eq ys(1) tokens_PROTOCOL LA_def)
qed

lemma re_search_blank_tail:
  "\<forall>c\<in>set W. is_space c \<Longrightarrow> re_search name_pattern (W @ PROTOCOL) = None"
proof (induction W)
  case Nil
  show ?case using re_search_no_space[of PROTOCOL] PROTOCOL_not_space
    by (simp add: not_space_def)
next
  case (Cons c W)
  have "name_pattern ((c # W) @ PROTOCOL) = []"
    using Cons.prems by (intro name_pattern_blank) simp_all
  with Cons show ?case by simp
qed

lemma re_search_blank:
  assumes "\<forall>c\<in>set V. \<not> is_space c" "\<forall>c\<in>set N. is_space c"
  shows "re_search name_pattern (V @ [32] @ N @ [32] @ PROTOCOL) = None"
proof -
  have "\<forall>c\<in>set ([32] @ N @ [32]). is_space c" using assms(2) by (simp add: is_space_def)
  from re_search_blank_tail[OF this]
  have "re_search name_pattern ([32] @ N @ [32] @ PROTOCOL) = None" by simp
  then show ?thesis using re_search_skip[OF assms(1), of "[32] @ N @ [32] @ PROTOCOL"] by simp
qed

text \<open>
  A name of whitespace only (without CR and LF), for every verb: the pattern finds nothing,
  the assertion of line 132 fails, and \<^verbatim>\<open>AssertionError\<close> leaves \<^verbatim>\<open>_is_valid_request\<close> and
  \<^verbatim>\<open>handle_echo\<close>; nothing is written and the disk is not touched.
\<close>

theorem blank_name_raises:
  assumes "list_all (\<lambda>c. is_space c \<and> c \<noteq> 13 \<and> c \<noteq> 10) N"
    and "receiving_data [] reader = Return data"
    and "utf8_decode data = Some (verb_value verb @ [32] @ N @ [32] @ PROTOCOL @ TERMINATOR)"
  shows "is_valid_request srv (verb_value verb @ [32] @ N @ [32] @ PROTOCOL @ TERMINATOR)
           = (Raise AssertionError, srv\<lparr>request_type := verb\<rparr>)
    \<and> handle_echo srv auth fs reader w = (Raise AssertionError, srv\<lparr>request_type := verb\<rparr>, fs, w)"
proof -
  let ?L = "verb_value verb @ [32] @ N @ [32] @ PROTOCOL"
  let ?raw = "verb_value verb @ [32] @ N @ [32] @ PROTOCOL @ TERMINATOR"
  have sp: "\<forall>c\<in>set N. is_space c" and n13: "13 \<notin> set N" and n10: "10 \<notin> set N"
    using assms(1) by (auto simp: list_all_iff)
  have f: "find (\<lambda>v. startswith ?raw (verb_value v @ [32])) RequestVerbs_members = Some verb"
    by (rule find_verb)
  have cr: "13 \<notin> set ?L" using n13 verb_no_cr[of verb] by (simp add: PROTOCOL_def)
  have lf: "10 \<notin> set ?L" using n10 by (cases verb) (simp_all add: PROTOCOL_def)
  have e1: "endswith ?raw TERMINATOR" using endswith_appendI[of ?L TERMINATOR] by simp
  have e2: "\<not> endswith ?raw ([32] @ TERMINATOR)"
  proof
    assume "endswith ?raw ([32] @ TERMINATOR)"
    then have "endswith ((verb_value verb @ [32] @ N @ [32] @ butlast PROTOCOL) @ [0x30] @ TERMINATOR)
        ([32] @ TERMINATOR)" by (simp add: PROTOCOL_def)
    from endswith_last[OF this] show False by simp
  qed
  have cnt: "py_count ?raw TERMINATOR = 1" using py_count_one[OF cr] by simp
  have spl: "split_crlf [] ?raw = [?L, [], []]" using split_crlf_single[OF cr] by simp
  have ew: "endswith ?L ([32] @ PROTOCOL)"
    using endswith_appendI[of "verb_value verb @ [32] @ N" "[32] @ PROTOCOL"] by simp
  have rs: "re_search name_pattern ?L = None"
    using re_search_blank[OF verb_not_space sp, of verb] .
  have crlf: "\<not> list_ex (\<lambda>l. list_ex (\<lambda>el. el \<in> set l) [13, 10]) [?L]"
    using cr lf by simp
  have body: "check_request_body (srv\<lparr>request_type := verb\<rparr>) ?raw
      = (Raise AssertionError, srv\<lparr>request_type := verb\<rparr>)"
    unfolding check_request_body_def spl Let_def
    using ew rs crlf by (simp del: append.simps)
  have v: "is_valid_request srv ?raw = (Raise AssertionError, srv\<lparr>request_type := verb\<rparr>)"
    unfolding is_valid_request_def f Let_def
    using e1 e2 cnt body by (simp del: append.simps)
  have "handle_echo_try srv auth fs reader w = (Raise AssertionError, srv\<lparr>request_type := verb\<rparr>, fs, w)"
    using assms(2,3) v by (simp add: handle_echo_try_def)
  then have "handle_echo srv auth fs reader w = (Raise AssertionError, srv\<lparr>request_type := verb\<rparr>, fs, w)"
    by (simp add: handle_echo_def caught_def)
  with v show ?thesis by simp
qed

text \<open>
  What holds of every request that \<^verbatim>\<open>_is_valid_request\<close> accepts: the name is not empty,
  has at most 30 characters, is trimmed and has no CR or LF; every payload line is not
  empty, trimmed and without CR and LF; the text starts with the verb recorded and a
  space; the phonebook path is untouched.
\<close>

theorem accepted_request_invariant:
  assumes "is_valid_request srv raw = (Return (), srv1)"
  shows "name srv1 \<noteq> [] \<and> length (name srv1) \<le> ALLOWED_NAME_LENGTH
    \<and> py_strip (name srv1) = name srv1
    \<and> 13 \<notin> set (name srv1) \<and> 10 \<notin> set (name srv1)
    \<and> list_all good_line (phones srv1)
    \<and> startswith raw (verb_value (request_type srv1) @ [32])
    \<and> path_to_phonebook srv1 = path_to_phonebook srv"
  using accepted_request_facts[OF assms] .

theorem accepted_request_invariant_witness:
  "name (example_server\<lparr>request_type := WRITE, name := ascii ''Ivan'', phones := [ascii ''+7123'']\<rparr>)
     \<noteq> []
   \<and> list_all good_line [ascii ''+7123'']"
proof -
  have "is_valid_request example_server
      (verb_value WRITE @ ascii '' Ivan '' @ PROTOCOL @ CRLF @ ascii ''+7123'' @ TERMINATOR)
    = (Return (), example_server\<lparr>request_type := WRITE, name := ascii ''Ivan'', phones := [ascii ''+7123'']\<rparr>)"
    by (simp add: eval_defs)
  from accepted_request_invariant[OF this] show ?thesis by simp
qed

lemma read_after_write:
  assumes "list_all good_line (phones srv)" and "write_phones srv fs = (Return r, fs1)"
    and "record_path srv2 = record_path srv"
  shows "r = response_line OK @ CRLF
    \<and> read_phones srv2 fs1 =
        (Return (response_line OK @ py_join CRLF (phones srv) @ TERMINATOR),
         fs1\<lparr>trace := trace fs1 @ [Stat (record_path srv), OpenRead (record_path srv)]\<rparr>)
    \<and> utf8_encode (py_join CRLF (phones srv)) \<noteq> None"
proof -
  from write_phones_Return[OF assms(2)] obtain k b where
    r: "r = response_line OK @ CRLF" and
    k: "resolve fs1 (record_path srv) = Return k" "nodes fs1 k = Some (File b)"
       "utf8_encode (py_join CRLF (phones srv)) = Some b"
    by blast
  have lk: "lookup fs1 (record_path srv) = Some (File b)" using k by (simp add: lookup_def)
  have dec: "utf8_decode b = Some (py_join CRLF (phones srv))"
    using k(3) by (rule utf8_decode_encode)
  have "read_phones srv2 fs1 =
     (Return (response_line OK @ py_join CRLF (phones srv) @ TERMINATOR),
      fs1\<lparr>trace := trace fs1 @ [Stat (record_path srv), OpenRead (record_path srv)]\<rparr>)"
    using lk k dec lines_round_trip[OF assms(1)] assms(3)
    by (simp add: read_phones_def is_path_exists_eq open_read_def)
  with r k(3) show ?thesis by simp
qed

lemma handle_echo_allowed:
  assumes "receiving_data [] reader = Return data" and "utf8_decode data = Some message"
    and "is_valid_request srv message = (Return (), srv1)"
    and "tcp_echo_client auth message = Return reply" and "utf8_decode reply = Some verdict"
    and "startswith verdict (validation_value ALLOWED @ [32])"
    and "crud_dict (request_type srv1) = Some operation"
    and "operation srv1 fs = (Return response, fs1)" and "utf8_encode response = Some b"
  shows "handle_echo srv auth fs reader w =
           (Return (), srv1, fs1, w\<lparr>written := written w @ [b], closed := True\<rparr>)"
proof -
  have voc: "list_ex (\<lambda>verb. startswith verdict (validation_value verb @ [32]))
               ValidationWords_members"
    using assms(6) by (simp add: ValidationWords_members_def)
  have "handle_echo_try srv auth fs reader w =
          (Return (), srv1, fs1, w\<lparr>written := written w @ [b], closed := True\<rparr>)"
    using assms voc by (simp add: handle_echo_try_def write_and_close_def)
  then show ?thesis by (simp add: handle_echo_def)
qed

text \<open>
  An allowed request is executed. When the verdict starts with the allowed word and a
  space, the operation of the request's verb runs on the record store, and what it
  returns is the response written before the transport is closed.
\<close>

theorem allowed_request_dispatched:
  assumes "receiving_data [] reader = Return data" and "utf8_decode data = Some message"
    and "is_valid_request srv message = (Return (), srv1)"
    and "tcp_echo_client auth message = Return reply" and "utf8_decode reply = Some verdict"
    and "startswith verdict (validation_value ALLOWED @ [32])"
    and "(case request_type srv1 of
            WRITE \<Rightarrow> write_phones srv1 fs
          | GET \<Rightarrow> read_phones srv1 fs
          | DELETE \<Rightarrow> delete_file srv1 fs) = (Return response, fs1)"
    and "utf8_encode response = Some b"
  shows "handle_echo srv auth fs reader w =
           (Return (), srv1, fs1, w\<lparr>written := written w @ [b], closed := True\<rparr>)"
proof -
  obtain operation where "crud_dict (request_type srv1) = Some operation"
    "operation srv1 fs = (Return response, fs1)"
    using assms(7) by (cases "request_type srv1") auto
  from handle_echo_allowed[OF assms(1-6) this assms(8)] show ?thesis .
qed

theorem allowed_request_dispatched_witness:
  "\<exists>fs1. handle_echo example_server (authority_replying verdict_allowed) example_fs_ivan
       [utf8 (verb_value GET @ ascii '' Ivan '' @ PROTOCOL @ TERMINATOR)] new_writer
     = (Return (), example_server\<lparr>name := ascii ''Ivan''\<rparr>, fs1,
        \<lparr>written = [utf8 (response_line OK @ ascii ''+7123'' @ TERMINATOR)], closed = True\<rparr>)"
proof -
  let ?raw = "verb_value GET @ ascii '' Ivan '' @ PROTOCOL @ TERMINATOR"
  let ?srv1 = "example_server\<lparr>name := ascii ''Ivan''\<rparr>"
  have 1: "receiving_data [] [utf8 ?raw] = Return (utf8 ?raw)" by (simp add: eval_defs)
  have 2: "utf8_decode (utf8 ?raw) = Some ?raw" by (simp add: eval_defs)
  have 3: "is_valid_request example_server ?raw = (Return (), ?srv1)" by (simp add: eval_defs)
  have 4: "tcp_echo_client (authority_replying verdict_allowed) ?raw = Return (utf8 verdict_allowed)"
    by (simp add: eval_defs)
  have 5: "utf8_decode (utf8 verdict_allowed) = Some verdict_allowed" by (simp add: eval_defs)
  have 6: "startswith verdict_allowed (validation_value ALLOWED @ [32])" by (simp add: eval_defs)
  obtain fs1 where 7: "(case request_type ?srv1 of
            WRITE \<Rightarrow> write_phones ?srv1 example_fs_ivan
          | GET \<Rightarrow> read_phones ?srv1 example_fs_ivan
          | DELETE \<Rightarrow> delete_file ?srv1 example_fs_ivan)
      = (Return (response_line OK @ ascii ''+7123'' @ TERMINATOR), fs1)"
    by (simp add: eval_defs)
  have 8: "utf8_encode (response_line OK @ ascii ''+7123'' @ TERMINATOR)
      = Some (utf8 (response_line OK @ ascii ''+7123'' @ TERMINATOR))"
    by (simp add: eval_defs)
  from allowed_request_dispatched[OF 1 2 3 4 5 6 7 8, of new_writer] show ?thesis
    by (auto simp: new_writer_def)
qed

lemma encode_ok_lines:
  assumes "utf8_encode t \<noteq> None"
  shows "utf8_encode (response_line OK @ t @ TERMINATOR)
       = Some (utf8 (response_line OK @ t @ TERMINATOR))"
proof -
  from assms obtain b where b: "utf8_encode t = Some b" by auto
  have "\<exists>h. utf8_encode (response_line OK) = Some h" by (simp add: eval_defs)
  then obtain h where h: "utf8_encode (response_line OK) = Some h" by blast
  have "\<exists>e. utf8_encode TERMINATOR = Some e" by (simp add: eval_defs)
  then obtain e where e: "utf8_encode TERMINATOR = Some e" by blast
  from utf8_encode_append[OF h utf8_encode_append[OF b e]]
  show ?thesis by (simp add: utf8_def)
qed

text \<open>
  Store and Retrieve over the wire. For every accepted and allowed Store request whose
  \<^verbatim>\<open>_write_phones\<close> returns, and every accepted and allowed Retrieve request for the same
  name handled next, the first connection is answered OK and the second with the OK
  response that carries the stored lines in their order.
\<close>

theorem wire_round_trip:
  assumes "receiving_data [] reader1 = Return data1" and "utf8_decode data1 = Some raw1"
    and "is_valid_request srv raw1 = (Return (), srv1)" and "request_type srv1 = WRITE"
    and "tcp_echo_client auth1 raw1 = Return reply1" and "utf8_decode reply1 = Some verdict1"
    and "startswith verdict1 (validation_value ALLOWED @ [32])"
    and "write_phones srv1 fs = (Return r, fs1)"
    and "receiving_data [] reader2 = Return data2" and "utf8_decode data2 = Some raw2"
    and "is_valid_request srv1 raw2 = (Return (), srv2)" and "request_type srv2 = GET"
    and "name srv2 = name srv1"
    and "tcp_echo_client auth2 raw2 = Return reply2" and "utf8_decode reply2 = Some verdict2"
    and "startswith verdict2 (validation_value ALLOWED @ [32])"
  shows "handle_echo srv auth1 fs reader1 w1 =
           (Return (), srv1, fs1,
            w1\<lparr>written := written w1 @ [utf8 (response_line OK @ CRLF)], closed := True\<rparr>)
    \<and> (\<exists>fs2. handle_echo srv1 auth2 fs1 reader2 w2 =
           (Return (), srv2, fs2,
            w2\<lparr>written := written w2
                    @ [utf8 (response_line OK @ py_join CRLF (phones srv1) @ TERMINATOR)],
                closed := True\<rparr>))"
proof -
  from accepted_request_facts[OF assms(3)] have gl: "list_all good_line (phones srv1)" by simp
  from accepted_request_facts[OF assms(11)]
  have "path_to_phonebook srv2 = path_to_phonebook srv1" by simp
  then have rp: "record_path srv2 = record_path srv1" using assms(13) by (simp add: record_path_def)
  from read_after_write[OF gl assms(8) rp]
  have r: "r = response_line OK @ CRLF"
    and rd: "read_phones srv2 fs1 =
        (Return (response_line OK @ py_join CRLF (phones srv1) @ TERMINATOR),
         fs1\<lparr>trace := trace fs1 @ [Stat (record_path srv1), OpenRead (record_path srv1)]\<rparr>)"
    and en: "utf8_encode (py_join CRLF (phones srv1)) \<noteq> None"
    by auto
  have c1: "crud_dict (request_type srv1) = Some write_phones" using assms(4) by simp
  have c2: "crud_dict (request_type srv2) = Some read_phones" using assms(12) by simp
  have a: "handle_echo srv auth1 fs reader1 w1 =
           (Return (), srv1, fs1,
            w1\<lparr>written := written w1 @ [utf8 (response_line OK @ CRLF)], closed := True\<rparr>)"
    using handle_echo_allowed[OF assms(1,2,3,5,6,7) c1 assms(8)[unfolded r] encode_ok] .
  have b: "handle_echo srv1 auth2 fs1 reader2 w2 =
           (Return (), srv2,
            fs1\<lparr>trace := trace fs1 @ [Stat (record_path srv1), OpenRead (record_path srv1)]\<rparr>,
            w2\<lparr>written := written w2
                    @ [utf8 (response_line OK @ py_join CRLF (phones srv1) @ TERMINATOR)],
                closed := True\<rparr>)"
    using handle_echo_allowed[OF assms(9,10,11,14,15,16) c2 rd encode_ok_lines[OF en]] .
  from a b show ?thesis by blast
qed

theorem blank_name_raises_witness:
  "handle_echo example_server ConnectionRefused example_fs
     [utf8 (verb_value DELETE @ [32] @ [9, 32] @ [32] @ PROTOCOL @ TERMINATOR)] new_writer
   = (Raise AssertionError, example_server\<lparr>request_type := DELETE\<rparr>, example_fs, new_writer)"
proof -
  let ?raw = "verb_value DELETE @ [32] @ [9, 32] @ [32] @ PROTOCOL @ TERMINATOR"
  have 1: "list_all (\<lambda>c. is_space c \<and> c \<noteq> 13 \<and> c \<noteq> 10) [9, 32]" by (simp add: is_space_def)
  have 2: "receiving_data [] [utf8 ?raw] = Return (utf8 ?raw)" by (simp add: eval_defs)
  have 3: "utf8_decode (utf8 ?raw) = Some ?raw" by (simp add: eval_defs)
  from blank_name_raises[OF 1 2 3, of example_server ConnectionRefused example_fs new_writer]
  show ?thesis by simp
qed

theorem wire_round_trip_witness:
  "\<exists>srv1 fs1 srv2 fs2.
     handle_echo example_server (authority_replying verdict_allowed) example_fs_ready
       [utf8 (verb_value WRITE @ ascii '' Anna Maria '' @ PROTOCOL @ CRLF @ ascii ''+7123''
                @ CRLF @ ascii ''8 800 555'' @ TERMINATOR)]
       new_writer
     = (Return (), srv1, fs1, \<lparr>written = [utf8 (response_line OK @ CRLF)], closed = True\<rparr>)
     \<and> handle_echo srv1 (authority_replying verdict_allowed) fs1
       [utf8 (verb_value GET @ ascii '' Anna Maria '' @ PROTOCOL @ TERMINATOR)] new_writer
     = (Return (), srv2, fs2,
        \<lparr>written = [utf8 (response_line OK @ ascii ''+7123'' @ CRLF @ ascii ''8 800 555''
                             @ TERMINATOR)],
         closed = True\<rparr>)"
proof -
  let ?raw1 = "verb_value WRITE @ ascii '' Anna Maria '' @ PROTOCOL @ CRLF @ ascii ''+7123''
                @ CRLF @ ascii ''8 800 555'' @ TERMINATOR"
  let ?raw2 = "verb_value GET @ ascii '' Anna Maria '' @ PROTOCOL @ TERMINATOR"
  let ?srv1 = "example_server\<lparr>request_type := WRITE, name := ascii ''Anna Maria'',
                 phones := [ascii ''+7123'', ascii ''8 800 555'']\<rparr>"
  let ?srv2 = "?srv1\<lparr>request_type := GET, phones := []\<rparr>"
  let ?auth = "authority_replying verdict_allowed"
  have 1: "receiving_data [] [utf8 ?raw1] = Return (utf8 ?raw1)" by (simp add: eval_defs)
  have 2: "utf8_decode (utf8 ?raw1) = Some ?raw1" by (simp add: eval_defs)
  have 3: "is_valid_request example_server ?raw1 = (Return (), ?srv1)" by (simp add: eval_defs)
  have 4: "request_type ?srv1 = WRITE" by simp
  have 5: "tcp_echo_client ?auth ?raw1 = Return (utf8 verdict_allowed)" by (simp add: eval_defs)
  have 6: "utf8_decode (utf8 verdict_allowed) = Some verdict_allowed" by (simp add: eval_defs)
  have 7: "startswith verdict_allowed (validation_value ALLOWED @ [32])" by (simp add: eval_defs)
  obtain r fs1 where 8: "write_phones ?srv1 example_fs_ready = (Return r, fs1)"
    by (simp add: eval_defs)
  have 9: "receiving_data [] [utf8 ?raw2] = Return (utf8 ?raw2)" by (simp add: eval_defs)
  have 10: "utf8_decode (utf8 ?raw2) = Some ?raw2" by (simp add: eval_defs)
  have 11: "is_valid_request ?srv1 ?raw2 = (Return (), ?srv2)" by (simp add: eval_defs)
  have 12: "request_type ?srv2 = GET" by simp
  have 13: "name ?srv2 = name ?srv1" by simp
  have 14: "tcp_echo_client ?auth ?raw2 = Return (utf8 verdict_allowed)" by (simp add: eval_defs)
  have j: "py_join CRLF (phones ?srv1) = ascii ''+7123'' @ CRLF @ ascii ''8 800 555''" by simp
  from wire_round_trip[OF 1 2 3 4 5 6 7 8 9 10 11 12 13 14 6 7, of new_writer new_writer]
  show ?thesis unfolding j by (auto simp: new_writer_def)
qed

section \<open>The limits of the file system\<close>

lemma split_slash_comps:
  "list_all (\<lambda>c. 0x2F \<notin> set c) cs \<Longrightarrow>
   split_slash acc (abs_path cs) = (if cs = [] then [acc] else acc # cs)"
proof (induction cs arbitrary: acc)
  case Nil
  then show ?case by (simp add: abs_path_def)
next
  case (Cons c cs)
  then have c: "0x2F \<notin> set c" and cs: "list_all (\<lambda>c. 0x2F \<notin> set c) cs" by simp_all
  have "split_slash acc (abs_path (c # cs)) = acc # split_slash [] (c @ abs_path cs)"
    by (simp add: abs_path_def)
  also have "\<dots> = acc # split_slash c (abs_path cs)"
    using split_slash_plain[OF c, of "[]" "abs_path cs"] by simp
  also have "\<dots> = acc # c # cs" using Cons.IH[OF cs, of c] by simp
  finally show ?case by simp
qed

lemma walk_long_name:
  "list_all plain_name cs \<Longrightarrow> (\<And>i. i \<le> length cs \<Longrightarrow> nd (cur @ take i cs) = Some Dir) \<Longrightarrow>
   NAME_MAX < length c \<Longrightarrow> walk nd cur (cs @ [c]) = None"
proof (induction cs arbitrary: cur)
  case Nil
  have "nd cur = Some Dir" using Nil.prems(2)[of 0] by simp
  moreover have "c \<noteq> []" "c \<noteq> [0x2E]" "c \<noteq> [0x2E, 0x2E]"
    using Nil.prems(3) by (auto simp: NAME_MAX_def)
  ultimately show ?case using Nil.prems(3) by simp
next
  case (Cons d cs)
  have dd: "nd cur = Some Dir" using Cons.prems(2)[of 0] by simp
  have pd: "plain_name d" and cs: "list_all plain_name cs" using Cons.prems(1) by simp_all
  from pd have d: "d \<noteq> []" "d \<noteq> [0x2E]" "d \<noteq> [0x2E, 0x2E]" "\<not> NAME_MAX < length d"
    by (simp_all add: plain_name_def)
  have "\<And>i. i \<le> length cs \<Longrightarrow> nd ((cur @ [d]) @ take i cs) = Some Dir"
    using Cons.prems(2)[of "Suc i" for i] by simp
  from Cons.IH[of "cur @ [d]", OF cs this Cons.prems(3)] show ?case using dd d by simp
qed

lemma resolve_long_name:
  assumes "phonebook_ready rc srv fs" "nodes fs rc = Some Dir"
    and "fsencode (name srv) = Some nb" "0x2F \<notin> set nb" "0 \<notin> set nb" "NAME_MAX < length nb"
  shows "resolve fs (record_path srv) = Raise OSError"
proof -
  from assms(1) have rc: "rc \<noteq> []" "list_all plain_name rc"
      "fsencode (path_to_phonebook srv) = Some (abs_path rc)"
    and dirs: "\<And>i. i < length rc \<Longrightarrow> nodes fs (take i rc) = Some Dir"
    by (auto simp: phonebook_ready_def list_all_iff)
  have enc: "fsencode (record_path srv) = Some (abs_path (rc @ [nb]))"
    using rc(3) assms(3) by (rule record_path_bytes)
  have sl: "list_all (\<lambda>c. 0x2F \<notin> set c) (rc @ [nb])"
    using rc(2) assms(4) by (auto simp: list_all_iff plain_name_def)
  have sp: "split_slash [] (abs_path (rc @ [nb])) = [] # rc @ [nb]"
    using split_slash_comps[OF sl, of "[]"] by simp
  have "\<And>i. i \<le> length rc \<Longrightarrow> nodes fs ([] @ take i rc) = Some Dir"
  proof -
    fix i assume "i \<le> length rc"
    then consider "i < length rc" | "i = length rc" by fastforce
    then show "nodes fs ([] @ take i rc) = Some Dir" using dirs assms(2) by cases simp_all
  qed
  from walk_long_name[of rc "nodes fs" "[]" nb, OF rc(2) this assms(6)]
  have w: "walk (nodes fs) [] (rc @ [nb]) = None" .
  have root: "nodes fs [] = Some Dir" using dirs[of 0] rc(1) by simp
  have w2: "walk (nodes fs) [] ([] # rc @ [nb]) = None" using w root by simp
  have ne: "abs_path (rc @ [nb]) \<noteq> []" "hd (abs_path (rc @ [nb])) = 0x2F"
    using rc(1) by (cases rc; simp add: abs_path_def)+
  have z: "0 \<notin> set (abs_path (rc @ [nb]))"
    using rc(2) assms(5) by (induction rc) (auto simp: abs_path_def plain_name_def)
  show ?thesis using enc sp w2 ne z by (simp add: resolve_def)
qed

text \<open>
  A name that is too long for the file system. When the phonebook exists and the name,
  encoded, is one component of more than 255 bytes, \<^verbatim>\<open>open\<close> fails with \<^verbatim>\<open>ENAMETOOLONG\<close>:
  \<^verbatim>\<open>_write_phones\<close> raises \<^verbatim>\<open>OSError\<close> after its two calls and changes no node, while
  \<^verbatim>\<open>_read_phones\<close> and \<^verbatim>\<open>_delete_file\<close>, whose \<^verbatim>\<open>os.stat\<close> fails the same way, answer
  NotFound. The grammar keeps such names away: it admits 30 characters, 120 bytes at most.
\<close>

theorem long_name_refused:
  assumes "phonebook_ready rc srv fs" "nodes fs rc = Some Dir"
    and "fsencode (name srv) = Some nb" "0x2F \<notin> set nb" "0 \<notin> set nb" "NAME_MAX < length nb"
  shows "write_phones srv fs =
           (Raise OSError,
            fs\<lparr>trace := trace fs @ [Stat (path_to_phonebook srv), OpenWrite (record_path srv)]\<rparr>)
    \<and> read_phones srv fs =
           (Return (response_line NOT_FOUND @ CRLF), fs\<lparr>trace := trace fs @ [Stat (record_path srv)]\<rparr>)
    \<and> delete_file srv fs =
           (Return (response_line NOT_FOUND @ CRLF), fs\<lparr>trace := trace fs @ [Stat (record_path srv)]\<rparr>)"
proof -
  have r: "resolve fs (record_path srv) = Raise OSError" using assms by (rule resolve_long_name)
  then have l: "lookup fs (record_path srv) = None" by (simp add: lookup_def)
  from assms(1) have rc: "rc \<noteq> []" "list_all plain_name rc"
      "fsencode (path_to_phonebook srv) = Some (abs_path rc)"
      "length (abs_path rc) + 1 + 4 * ALLOWED_NAME_LENGTH < PATH_MAX"
    and dirs: "\<And>i. i < length rc \<Longrightarrow> nodes fs (take i rc) = Some Dir"
    by (auto simp: phonebook_ready_def list_all_iff)
  have "resolve fs (path_to_phonebook srv) = Return rc"
    using rc(1,2) dirs rc(3,4) by (intro resolve_abs_path) simp_all
  then have pb: "lookup fs (path_to_phonebook srv) \<noteq> None" using assms(2) by (simp add: lookup_def)
  have w: "write_phones srv fs =
           (Raise OSError,
            fs\<lparr>trace := trace fs @ [Stat (path_to_phonebook srv), OpenWrite (record_path srv)]\<rparr>)"
    using pb r by (simp add: write_phones_def is_path_exists_eq open_write_def)
  have rd: "read_phones srv fs =
           (Return (response_line NOT_FOUND @ CRLF), fs\<lparr>trace := trace fs @ [Stat (record_path srv)]\<rparr>)"
    using l by (simp add: read_phones_def is_path_exists_eq)
  have d: "delete_file srv fs =
           (Return (response_line NOT_FOUND @ CRLF), fs\<lparr>trace := trace fs @ [Stat (record_path srv)]\<rparr>)"
    using l by (simp add: delete_file_def is_path_exists_eq)
  show ?thesis using w rd d by simp
qed

lemma fsencode_replicate_a: "fsencode (replicate n 0x61) = Some (replicate n 0x61)"
  by (induction n) (simp_all add: fsencode_cp_def encode_cp_def)

theorem long_name_refused_witness:
  "fst (write_phones (example_server\<lparr>name := replicate 256 0x61, phones := [ascii ''1'']\<rparr>)
         example_fs_ready) = Raise OSError
   \<and> fst (read_phones (example_server\<lparr>name := replicate 256 0x61, phones := [ascii ''1'']\<rparr>)
         example_fs_ready) = Return (response_line NOT_FOUND @ CRLF)"
proof -
  let ?srv = "example_server\<lparr>name := replicate 256 0x61, phones := [ascii ''1'']\<rparr>"
  have 1: "phonebook_ready [ascii ''srv'', ascii ''rksok_phonebook''] ?srv example_fs_ready"
    by (simp add: phonebook_ready_def plain_name_def abs_path_def eval_defs)
  have 2: "nodes example_fs_ready [ascii ''srv'', ascii ''rksok_phonebook''] = Some Dir"
    by (simp add: eval_defs)
  have 3: "fsencode (name ?srv) = Some (replicate 256 0x61)" by (simp add: fsencode_replicate_a)
  have 4: "0x2F \<notin> set (replicate 256 (0x61::nat))" "0 \<notin> set (replicate 256 (0x61::nat))"
    "NAME_MAX < length (replicate 256 (0x61::nat))"
    by (simp_all add: NAME_MAX_def)
  from long_name_refused[OF 1 2 3 4] show ?thesis by simp
qed

end
